theory Spec2Isabelle
  imports Main
begin

section \<open>Python values used by the agent\<close>

text \<open>
  The exceptions the modelled code can raise.  \<open>KeyError\<close> carries the name that a graph
  lookup did not find; \<open>ZeroDivisionError\<close> is what Python's \<open>%\<close> raises for a zero
  divisor; \<open>TypeError\<close> and \<open>AttributeError\<close> arise when an attribute still holds the
  \<open>None\<close> that \<open>Agent.__init__\<close> stored in it; \<open>ValueError\<close> is what TensorFlow raises when
  an operation is given \<open>None\<close> for a tensor.
\<close>

datatype py_error =
    ZeroDivisionError
  | KeyError string
  | TypeError
  | AttributeError
  | AssertionError
  | ValueError

text \<open>
  Python's \<open>a % b\<close> on unbounded integers: floor modulus (the sign of the divisor), which is
  what \<open>mod\<close> on \<open>int\<close> computes, and an exception when \<open>b\<close> is zero.
\<close>

definition py_mod :: "int \<Rightarrow> int \<Rightarrow> py_error + int" where
  "py_mod a b = (if b = 0 then Inl ZeroDivisionError else Inr (a mod b))"

text \<open>The test \<open>a % b == 0\<close>.\<close>

definition py_mod_is0 :: "int \<Rightarrow> int \<Rightarrow> py_error + bool" where
  "py_mod_is0 a b = (case py_mod a b of Inl e \<Rightarrow> Inl e | Inr r \<Rightarrow> Inr (r = 0))"

text \<open>\<open>range(a, b)\<close>: the integers from \<open>a\<close> up to but excluding \<open>b\<close>.\<close>

definition py_range :: "int \<Rightarrow> int \<Rightarrow> int list" where
  "py_range a b = [a..b - 1]"

text \<open>Truthiness of an attribute that is \<open>None\<close>, \<open>False\<close> or \<open>True\<close>.\<close>

fun truthy :: "bool option \<Rightarrow> bool" where
  "truthy None = False"
| "truthy (Some b) = b"

section \<open>Data model of \<open>rltf/agents/agent.py\<close>\<close>

text \<open>
  The arguments of \<open>Agent.__init__\<close>, stored once and never assigned again, together with
  \<open>update_target_freq\<close>, an attribute that \<open>_train_model\<close> reads and that the concrete
  agent class supplies.
\<close>

record config =
  train_freq :: int
  start_train :: int
  stop_step :: int
  eval_freq :: int
  eval_len :: int
  batch_size :: int
  log_freq :: int
  save_freq :: int
  update_target_freq :: int

text \<open>
  The variables held by the TensorFlow session: the timestep variable \<open>t_tf\<close>, the
  parameters of the agent network and those of the target network.
\<close>

record 'p session =
  t_tf :: int
  params :: 'p
  target :: 'p

text \<open>
  What \<open>saver.save\<close> writes under \<open>model_dir\<close>: the names of the operations of the graph
  (the \<open>.meta\<close> file) and the values of all variables of the session.
\<close>

record 'p checkpoint =
  ck_graph :: "string list"
  ck_vars :: "'p session"

text \<open>
  Calls on collaborators, recorded in the order in which they happen.  The integer is
  the loop variable \<open>t\<close> of the caller, except for \<open>SaverSave\<close>, where it is the value of
  \<open>global_step\<close>.
\<close>

datatype event =
    GetFeedDict int
  | WaitActChosen int
  | TrainOp int
  | UpdateTarget int
  | MonitorSave
  | SaverSave int
  | SignalTrainDone int
  | WaitTrainDone int
  | EvalCall int
  | SignalActChosen int
  | TInc int
  | ReplayStore int
  | LogStats char int
  | TbTrain int
  | TbEval int
  | ModelReset
  | SubReset
  | MonitorMode char
  | ActionEval int
  | ActionTrain int
  | ActionSample int

text \<open>
  The state of an agent and of the collaborators it owns.  \<open>start_step\<close>, \<open>learn_started\<close>,
  \<open>sess\<close> and \<open>summary\<close> are \<open>None\<close> until \<open>build\<close> (or training) assigns them, as in
  \<open>Agent.__init__\<close>.  \<open>env\<close> is the state of the environment, \<open>mon_mode\<close> the attribute
  \<open>env_monitor.mode\<close>, \<open>mon_saved\<close> the snapshot that \<open>env_monitor.save()\<close> last wrote (the
  monitor wraps the environment, so its statistics are part of \<open>env\<close>), \<open>sub\<close> the episode
  state that the model's and the subclass's reset hooks act on, \<open>model_dir\<close> the
  checkpoints on disk (newest first) and \<open>graph\<close> the names of the operations of the
  default graph.
\<close>

record ('e, 'o, 'a, 'r, 'p, 'x) agent =
  cfg :: config
  start_step :: "int option"
  learn_started :: "bool option"
  eval_runs :: int
  env :: 'e
  mon_mode :: char
  mon_saved :: "'e option"
  sess :: "'p session option"
  summary :: "int option"
  graph :: "string list"
  replay_buf :: "('o \<times> 'a \<times> 'r \<times> bool) list"
  sub :: 'x
  model_dir :: "'p checkpoint list"
  events :: "event list"

text \<open>
  The operations that the abstract methods and the collaborators contribute.  They are
  parameters of the model: the environment (\<open>env.reset\<close>, \<open>env.step\<close>,
  \<open>env.action_space.sample\<close>), the subclass's action selection (\<open>_action_train\<close>,
  \<open>_action_eval\<close>), the reset hooks (\<open>model.reset\<close>, \<open>_reset\<close>) and the effect of
  \<open>model.train_op\<close> on the parameters for a feed composed at step \<open>t\<close> from the replay
  buffer.  For \<open>build\<close> they give the names of the operations that \<open>self._build()\<close> and
  \<open>self.model.build()\<close> add to the graph, the tensor names that \<open>self.model.restore\<close> and
  \<open>self._restore\<close> look up, and the initial value of the parameters.
\<close>

record ('e, 'o, 'a, 'r, 'p, 'x) hooks =
  env_reset :: "'e \<Rightarrow> 'e \<times> 'o"
  env_step :: "'e \<Rightarrow> 'a \<Rightarrow> 'e \<times> 'o \<times> 'r \<times> bool"
  env_sample :: "'e \<Rightarrow> 'e \<times> 'a"
  action_train_hook :: "'x \<Rightarrow> 'p \<Rightarrow> 'o \<Rightarrow> int \<Rightarrow> 'x \<times> 'a"
  action_eval_hook :: "'p \<Rightarrow> 'o \<Rightarrow> int \<Rightarrow> 'a"
  model_reset :: "'x \<Rightarrow> 'x"
  sub_reset :: "'x \<Rightarrow> 'x"
  train_op :: "int \<times> ('o \<times> 'a \<times> 'r \<times> bool) list \<Rightarrow> 'p \<Rightarrow> 'p"
  model_build_ops :: "string list"
  model_restore_names :: "string list"
  init_params :: 'p

section \<open>Methods of \<open>Agent\<close>\<close>

text \<open>Sequencing of steps that may raise: the first exception ends the computation.\<close>

definition bind_err :: "py_error + 's \<Rightarrow> ('s \<Rightarrow> py_error + 't) \<Rightarrow> py_error + 't" where
  "bind_err m f = (case m of Inl e \<Rightarrow> Inl e | Inr x \<Rightarrow> f x)"

text \<open>A \<open>for t in ...\<close> loop whose body may raise.\<close>

fun for_each :: "('s \<Rightarrow> int \<Rightarrow> py_error + 's) \<Rightarrow> int list \<Rightarrow> 's \<Rightarrow> py_error + 's" where
  "for_each body [] s = Inr s"
| "for_each body (t # ts) s = (case body s t of Inl e \<Rightarrow> Inl e | Inr s' \<Rightarrow> for_each body ts s')"

definition record_ev ::
  "event list \<Rightarrow> ('e, 'o, 'a, 'r, 'p, 'x) agent \<Rightarrow> ('e, 'o, 'a, 'r, 'p, 'x) agent" where
  "record_ev evs a = a\<lparr>events := events a @ evs\<rparr>"

text \<open>
  \<open>Agent.save\<close>: nothing unless \<open>learn_started\<close> is true; otherwise the monitor saves its
  statistics and the saver writes the graph and every session variable (the model
  parameters and \<open>t_tf\<close>) under \<open>model_dir\<close>, with \<open>global_step\<close> the value of \<open>t_tf\<close>.
  The saver was created with \<open>max_to_keep=2\<close>.
\<close>

definition save ::
  "('e, 'o, 'a, 'r, 'p, 'x) agent \<Rightarrow> py_error + ('e, 'o, 'a, 'r, 'p, 'x) agent" where
  "save a =
     (if truthy (learn_started a) then
        (let a1 = record_ev [MonitorSave] (a\<lparr>mon_saved := Some (env a)\<rparr>) in
         case sess a1 of
           None \<Rightarrow> Inl AttributeError
         | Some s \<Rightarrow>
             Inr (record_ev [SaverSave (t_tf s)]
                    (a1\<lparr>model_dir :=
                          take 2 (\<lparr>ck_graph = graph a1, ck_vars = s\<rparr> # model_dir a1)\<rparr>)))
      else Inr a)"

text \<open>
  \<open>Agent.reset\<close>: if learning has started, the model's and the subclass's reset hooks run;
  then the environment is reset and its observation returned.
\<close>

definition reset ::
  "('e, 'o, 'a, 'r, 'p, 'x) hooks \<Rightarrow> ('e, 'o, 'a, 'r, 'p, 'x) agent
   \<Rightarrow> ('e, 'o, 'a, 'r, 'p, 'x) agent \<times> 'o" where
  "reset h a =
     (let a1 = (if truthy (learn_started a)
                then record_ev [ModelReset, SubReset]
                       (a\<lparr>sub := sub_reset h (model_reset h (sub a))\<rparr>)
                else a);
          (e', obs) = env_reset h (env a1)
      in (a1\<lparr>env := e'\<rparr>, obs))"

text \<open>
  \<open>Agent._log_stats\<close>: \<open>t % self.log_freq\<close> is evaluated first, then \<open>learn_started\<close>; the
  TensorBoard summary is written only if a training step has stored one.
\<close>

definition log_stats ::
  "('e, 'o, 'a, 'r, 'p, 'x) agent \<Rightarrow> int \<Rightarrow> py_error + ('e, 'o, 'a, 'r, 'p, 'x) agent" where
  "log_stats a t =
     bind_err (py_mod_is0 t (log_freq (cfg a))) (\<lambda>due.
       if due \<and> truthy (learn_started a) then
         Inr (record_ev (LogStats (mon_mode a) t #
                         (if summary a \<noteq> None then [TbTrain t] else [])) a)
       else Inr a)"

section \<open>The learning executor: \<open>OffPolicyAgent._train_model\<close>\<close>

text \<open>
  The two executors are first modelled each on its own, as the methods are written:
  \<open>_wait_act_chosen\<close>, \<open>_signal_train_done\<close>, \<open>_wait_train_done\<close> and \<open>_signal_act_chosen\<close>
  are recorded as calls that return.  How the two threads interleave at these calls is
  the subject of the handshake model further down.  Which steps train, synchronise the
  target or call \<open>eval\<close> depends only on the loop variable and on the configuration, which
  neither executor assigns.
\<close>

text \<open>
  The condition \<open>t >= self.start_train and t % self.train_freq == 0\<close>; \<open>and\<close> evaluates its
  right operand only if the left one is true.
\<close>

definition train_due :: "config \<Rightarrow> int \<Rightarrow> py_error + bool" where
  "train_due c t = (if start_train c \<le> t then py_mod_is0 t (train_freq c) else Inr False)"

text \<open>The condition \<open>self.save_freq > 0 and t % self.save_freq == 0\<close>.\<close>

definition save_due :: "config \<Rightarrow> int \<Rightarrow> py_error + bool" where
  "save_due c t = (if 0 < save_freq c then py_mod_is0 t (save_freq c) else Inr False)"

text \<open>
  The branch taken on a training step: \<open>learn_started\<close> is set, the feed is composed from
  the replay buffer, the thread waits for the action, the session runs the summary and
  the training operation, and the target network is synchronised when
  \<open>t % self.update_target_freq == 0\<close>.
\<close>

definition train_step ::
  "('e, 'o, 'a, 'r, 'p, 'x) hooks \<Rightarrow> ('e, 'o, 'a, 'r, 'p, 'x) agent \<Rightarrow> int
   \<Rightarrow> py_error + ('e, 'o, 'a, 'r, 'p, 'x) agent" where
  "train_step h a t =
     (let a1 = a\<lparr>learn_started := Some True\<rparr>;
          feed = (t, replay_buf a1);
          a2 = record_ev [GetFeedDict t, WaitActChosen t] a1
      in case sess a2 of
           None \<Rightarrow> Inl AttributeError
         | Some s \<Rightarrow>
             (let s3 = s\<lparr>params := train_op h feed (params s)\<rparr>;
                  a3 = record_ev [TrainOp t] (a2\<lparr>sess := Some s3, summary := Some t\<rparr>)
              in bind_err (py_mod_is0 t (update_target_freq (cfg a3))) (\<lambda>sync.
                   if sync then
                     Inr (record_ev [UpdateTarget t]
                            (a3\<lparr>sess := Some (s3\<lparr>target := params s3\<rparr>)\<rparr>))
                   else Inr a3)))"

text \<open>One iteration of the loop of \<open>_train_model\<close>.\<close>

definition train_iter ::
  "('e, 'o, 'a, 'r, 'p, 'x) hooks \<Rightarrow> ('e, 'o, 'a, 'r, 'p, 'x) agent \<Rightarrow> int
   \<Rightarrow> py_error + ('e, 'o, 'a, 'r, 'p, 'x) agent" where
  "train_iter h a t =
     bind_err (train_due (cfg a) t) (\<lambda>due.
     bind_err (if due then train_step h a t else Inr (record_ev [WaitActChosen t] a)) (\<lambda>a1.
     bind_err (save_due (cfg a1) t) (\<lambda>sv.
     bind_err (if sv then save a1 else Inr a1) (\<lambda>a2.
     Inr (record_ev [SignalTrainDone t] a2)))))"

text \<open>\<open>_train_model\<close>: the loop over \<open>range(self.start_step, self.stop_step+1)\<close>.\<close>

definition train_model ::
  "('e, 'o, 'a, 'r, 'p, 'x) hooks \<Rightarrow> ('e, 'o, 'a, 'r, 'p, 'x) agent
   \<Rightarrow> py_error + ('e, 'o, 'a, 'r, 'p, 'x) agent" where
  "train_model h a =
     (case start_step a of
        None \<Rightarrow> Inl TypeError
      | Some s0 \<Rightarrow> for_each (train_iter h) (py_range s0 (stop_step (cfg a) + 1)) a)"

text \<open>The steps at which the training operation, resp. the target update, was run.\<close>

definition trained_at :: "event list \<Rightarrow> int list" where
  "trained_at evs = concat (map (\<lambda>e. case e of TrainOp t \<Rightarrow> [t] | _ \<Rightarrow> []) evs)"

definition synced_at :: "event list \<Rightarrow> int list" where
  "synced_at evs = concat (map (\<lambda>e. case e of UpdateTarget t \<Rightarrow> [t] | _ \<Rightarrow> []) evs)"


text \<open>The two conditions of the loop body, as predicates of the step.\<close>

definition is_train_step :: "config \<Rightarrow> int \<Rightarrow> bool" where
  "is_train_step c t \<longleftrightarrow> start_train c \<le> t \<and> t mod train_freq c = 0"

definition is_sync_step :: "config \<Rightarrow> int \<Rightarrow> bool" where
  "is_sync_step c t \<longleftrightarrow> is_train_step c t \<and> t mod update_target_freq c = 0"

section \<open>The evaluation runner: \<open>OffPolicyAgent.eval\<close>\<close>

text \<open>
  The step range of an evaluation run, computed after \<open>eval_runs\<close> has been incremented:
  \<open>start_step = eval_len * eval_runs + 1\<close>, \<open>stop_step = eval_len + start_step\<close>, and the loop
  runs over \<open>range(start_step, stop_step)\<close>.
\<close>

definition eval_range :: "config \<Rightarrow> int \<Rightarrow> int list" where
  "eval_range c runs =
     (let start = eval_len c * runs + 1;
          stop = eval_len c + start
      in py_range start stop)"

text \<open>
  One iteration of the loop of \<open>eval\<close>, on the agent and the current observation: the
  evaluation action is computed from the parameters of the session, the environment
  steps, \<open>reset\<close> is called at the end of an episode, and every \<open>log_freq\<close> steps the
  monitor logs and a summary goes to the evaluation writer.
\<close>

definition eval_iter ::
  "('e, 'o, 'a, 'r, 'p, 'x) hooks \<Rightarrow> ('e, 'o, 'a, 'r, 'p, 'x) agent \<times> 'o \<Rightarrow> int
   \<Rightarrow> py_error + ('e, 'o, 'a, 'r, 'p, 'x) agent \<times> 'o" where
  "eval_iter h ao t =
     (let (a, obs) = ao in
      case sess a of
        None \<Rightarrow> Inl AttributeError
      | Some s \<Rightarrow>
          (let action = action_eval_hook h (params s) obs t;
               a1 = record_ev [ActionEval t] a;
               (e', next_obs, rew, done) = env_step h (env a1) action;
               a2 = a1\<lparr>env := e'\<rparr>;
               (a3, obs') = (if done then reset h a2 else (a2, next_obs))
           in bind_err (py_mod_is0 t (log_freq (cfg a3))) (\<lambda>due.
                Inr (if due then record_ev [LogStats (mon_mode a3) t, TbEval t] a3 else a3,
                     obs'))))"

text \<open>
  \<open>eval\<close>: the monitor is put in evaluation mode, the run counter incremented, the
  environment reset, the loop run, and the monitor put back in training mode.  An
  exception in the loop leaves \<open>eval\<close> before the last assignment.
\<close>

definition eval ::
  "('e, 'o, 'a, 'r, 'p, 'x) hooks \<Rightarrow> ('e, 'o, 'a, 'r, 'p, 'x) agent
   \<Rightarrow> py_error + ('e, 'o, 'a, 'r, 'p, 'x) agent" where
  "eval h a =
     (let a1 = record_ev [MonitorMode (CHR ''e'')] (a\<lparr>mon_mode := CHR ''e''\<rparr>);
          a2 = a1\<lparr>eval_runs := eval_runs a1 + 1\<rparr>;
          steps = eval_range (cfg a2) (eval_runs a2);
          (e', obs) = env_reset h (env a2);
          a3 = a2\<lparr>env := e'\<rparr>
      in bind_err (for_each (eval_iter h) steps (a3, obs)) (\<lambda>(a4, obs').
           Inr (record_ev [MonitorMode (CHR ''t'')] (a4\<lparr>mon_mode := CHR ''t''\<rparr>))))"

text \<open>The steps at which an evaluation action was computed, in order.\<close>

definition eval_steps :: "event list \<Rightarrow> int list" where
  "eval_steps evs = concat (map (\<lambda>e. case e of ActionEval t \<Rightarrow> [t] | _ \<Rightarrow> []) evs)"

text \<open>
  Successive calls of \<open>eval\<close>: the list of the steps each call iterated over, and the agent
  after the last call.
\<close>

fun eval_calls ::
  "('e, 'o, 'a, 'r, 'p, 'x) hooks \<Rightarrow> nat \<Rightarrow> ('e, 'o, 'a, 'r, 'p, 'x) agent
   \<Rightarrow> py_error + int list list \<times> ('e, 'o, 'a, 'r, 'p, 'x) agent" where
  "eval_calls h 0 a = Inr ([], a)"
| "eval_calls h (Suc n) a =
     bind_err (eval h a) (\<lambda>a'.
     bind_err (eval_calls h n a') (\<lambda>(runs, a'').
       Inr (eval_steps (drop (length (events a)) (events a')) # runs, a'')))"

text \<open>
  The same loop and the same method once more, now keeping the state in which they are
  left: after the last statement, or at the statement that raised.  An exception in
  the loop of \<open>eval\<close> propagates out of \<open>eval\<close>, so the assignment that puts the monitor back
  in training mode is then not reached.
\<close>

fun for_each_st ::
  "('s \<Rightarrow> int \<Rightarrow> 's \<times> py_error option) \<Rightarrow> int list \<Rightarrow> 's \<Rightarrow> 's \<times> py_error option" where
  "for_each_st body [] s = (s, None)"
| "for_each_st body (t # ts) s =
     (case body s t of
        (s', Some e) \<Rightarrow> (s', Some e)
      | (s', None) \<Rightarrow> for_each_st body ts s')"

definition eval_iter_st ::
  "('e, 'o, 'a, 'r, 'p, 'x) hooks \<Rightarrow> ('e, 'o, 'a, 'r, 'p, 'x) agent \<times> 'o \<Rightarrow> int
   \<Rightarrow> (('e, 'o, 'a, 'r, 'p, 'x) agent \<times> 'o) \<times> py_error option" where
  "eval_iter_st h ao t =
     (let (a, obs) = ao in
      case sess a of
        None \<Rightarrow> ((a, obs), Some AttributeError)
      | Some s \<Rightarrow>
          (let action = action_eval_hook h (params s) obs t;
               a1 = record_ev [ActionEval t] a;
               (e', next_obs, rew, done) = env_step h (env a1) action;
               a2 = a1\<lparr>env := e'\<rparr>;
               (a3, obs') = (if done then reset h a2 else (a2, next_obs))
           in case py_mod_is0 t (log_freq (cfg a3)) of
                Inl e \<Rightarrow> ((a3, obs'), Some e)
              | Inr due \<Rightarrow>
                  ((if due then record_ev [LogStats (mon_mode a3) t, TbEval t] a3 else a3,
                    obs'), None)))"

definition eval_st ::
  "('e, 'o, 'a, 'r, 'p, 'x) hooks \<Rightarrow> ('e, 'o, 'a, 'r, 'p, 'x) agent
   \<Rightarrow> ('e, 'o, 'a, 'r, 'p, 'x) agent \<times> py_error option" where
  "eval_st h a =
     (let a1 = record_ev [MonitorMode (CHR ''e'')] (a\<lparr>mon_mode := CHR ''e''\<rparr>);
          a2 = a1\<lparr>eval_runs := eval_runs a1 + 1\<rparr>;
          steps = eval_range (cfg a2) (eval_runs a2);
          (e', obs) = env_reset h (env a2);
          a3 = a2\<lparr>env := e'\<rparr>
      in case for_each_st (eval_iter_st h) steps (a3, obs) of
           ((a4, obs'), Some e) \<Rightarrow> (a4, Some e)
         | ((a4, obs'), None) \<Rightarrow>
             (record_ev [MonitorMode (CHR ''t'')] (a4\<lparr>mon_mode := CHR ''t''\<rparr>), None))"

text \<open>The result of a call from the state it was left in and the exception, if any.\<close>

definition as_result :: "'s \<times> py_error option \<Rightarrow> py_error + 's" where
  "as_result r = (case r of (s, None) \<Rightarrow> Inr s | (s, Some e) \<Rightarrow> Inl e)"


section \<open>The environment executor: \<open>OffPolicyAgent._run_env\<close>\<close>

text \<open>
  The condition \<open>self.eval_len > 0 and t % self.eval_freq == 0\<close>: the modulus is evaluated
  only if \<open>eval_len\<close> is positive.
\<close>

definition eval_due :: "config \<Rightarrow> int \<Rightarrow> py_error + bool" where
  "eval_due c t = (if 0 < eval_len c then py_mod_is0 t (eval_freq c) else Inr False)"

text \<open>The operation \<open>t_inc_op\<close> created by \<open>build\<close>: \<open>tf.assign(t_tf, t_tf + 1)\<close>.\<close>

definition t_inc :: "'p session \<Rightarrow> 'p session" where
  "t_inc s = s\<lparr>t_tf := t_tf s + 1\<rparr>"

text \<open>
  The action of a step: the subclass's training action if \<open>learn_started\<close>, else a sample
  of the action space.
\<close>

definition choose_action ::
  "('e, 'o, 'a, 'r, 'p, 'x) hooks \<Rightarrow> ('e, 'o, 'a, 'r, 'p, 'x) agent \<Rightarrow> 'o \<Rightarrow> int
   \<Rightarrow> py_error + ('e, 'o, 'a, 'r, 'p, 'x) agent \<times> 'a" where
  "choose_action h a obs t =
     (if truthy (learn_started a) then
        (case sess a of
           None \<Rightarrow> Inl AttributeError
         | Some s \<Rightarrow>
             (let (x', act) = action_train_hook h (sub a) (params s) obs t
              in Inr (record_ev [ActionTrain t] (a\<lparr>sub := x'\<rparr>), act)))
      else
        (let (e', act) = env_sample h (env a)
         in Inr (record_ev [ActionSample t] (a\<lparr>env := e'\<rparr>), act)))"

text \<open>
  The part of an iteration of \<open>_run_env\<close> after the action is signalled: the timestep
  variable is incremented, the environment steps, the transition is stored, \<open>reset\<close> is
  called at the end of an episode, and \<open>_log_stats\<close> runs.
\<close>

definition act_and_store ::
  "('e, 'o, 'a, 'r, 'p, 'x) hooks \<Rightarrow> ('e, 'o, 'a, 'r, 'p, 'x) agent \<Rightarrow> 'o \<Rightarrow> 'a \<Rightarrow> int
   \<Rightarrow> py_error + ('e, 'o, 'a, 'r, 'p, 'x) agent \<times> 'o" where
  "act_and_store h a obs action t =
     (case sess a of
        None \<Rightarrow> Inl AttributeError
      | Some s \<Rightarrow>
          (let a1 = record_ev [TInc t] (a\<lparr>sess := Some (t_inc s)\<rparr>);
               (e', next_obs, rew, done) = env_step h (env a1) action;
               a2 = a1\<lparr>env := e'\<rparr>;
               a3 = record_ev [ReplayStore t]
                      (a2\<lparr>replay_buf := replay_buf a2 @ [(obs, action, rew, done)]\<rparr>);
               (a4, obs') = (if done then reset h a3 else (a3, next_obs))
           in bind_err (log_stats a4 t) (\<lambda>a5. Inr (a5, obs'))))"

text \<open>One iteration of the loop of \<open>_run_env\<close>.\<close>

definition run_env_iter ::
  "('e, 'o, 'a, 'r, 'p, 'x) hooks \<Rightarrow> ('e, 'o, 'a, 'r, 'p, 'x) agent \<times> 'o \<Rightarrow> int
   \<Rightarrow> py_error + ('e, 'o, 'a, 'r, 'p, 'x) agent \<times> 'o" where
  "run_env_iter h ao t =
     (let (a, obs) = ao;
          a0 = record_ev [WaitTrainDone t] a
      in bind_err (eval_due (cfg a0) t) (\<lambda>due.
         bind_err (if due then eval h (record_ev [EvalCall t] a0) else Inr a0) (\<lambda>a1.
         bind_err (choose_action h a1 obs t) (\<lambda>(a2, action).
         act_and_store h (record_ev [SignalActChosen t] a2) obs action t))))"

text \<open>\<open>_run_env\<close>: \<open>reset\<close>, then the loop over \<open>range(self.start_step, self.stop_step+1)\<close>.\<close>

definition run_env ::
  "('e, 'o, 'a, 'r, 'p, 'x) hooks \<Rightarrow> ('e, 'o, 'a, 'r, 'p, 'x) agent
   \<Rightarrow> py_error + ('e, 'o, 'a, 'r, 'p, 'x) agent" where
  "run_env h a =
     (let (a0, obs) = reset h a in
      case start_step a0 of
        None \<Rightarrow> Inl TypeError
      | Some s0 \<Rightarrow>
          bind_err (for_each (run_env_iter h) (py_range s0 (stop_step (cfg a0) + 1)) (a0, obs))
            (\<lambda>(a', obs'). Inr a'))"

text \<open>The steps at which \<open>_run_env\<close> called \<open>eval\<close>.\<close>

definition eval_called_at :: "event list \<Rightarrow> int list" where
  "eval_called_at evs = concat (map (\<lambda>e. case e of EvalCall t \<Rightarrow> [t] | _ \<Rightarrow> []) evs)"

section \<open>Predicates used to state frame properties\<close>

text \<open>
  The attributes of the agent that \<open>eval\<close> and the other methods below are shown to keep:
  configuration, control flags, session variables (model parameters, target parameters,
  timestep counter), last summary, graph, replay buffer, and the checkpoints and monitor
  snapshot on disk.  It says nothing about the run counter and the monitor's mode,
  which are stated apart, nor about the state of the environment, the episode state of
  the reset hooks and the journal of calls, which \<open>eval\<close> does change.
\<close>

definition agent_state_kept ::
  "('e, 'o, 'a, 'r, 'p, 'x) agent \<Rightarrow> ('e, 'o, 'a, 'r, 'p, 'x) agent \<Rightarrow> bool" where
  "agent_state_kept a a' \<longleftrightarrow>
     cfg a' = cfg a \<and> start_step a' = start_step a \<and> learn_started a' = learn_started a
     \<and> sess a' = sess a \<and> summary a' = summary a \<and> graph a' = graph a
     \<and> replay_buf a' = replay_buf a \<and> model_dir a' = model_dir a
     \<and> mon_saved a' = mon_saved a"

text \<open>
  The calls that the loop of \<open>eval\<close> makes: evaluation actions, the reset hooks, and logging
  with the monitor in evaluation mode.  No training operation, target update, replay
  store, increment of the timestep variable, save or change of the monitor's mode.
\<close>

fun eval_loop_event :: "event \<Rightarrow> bool" where
  "eval_loop_event (ActionEval t) = True"
| "eval_loop_event (LogStats m t) = (m = CHR ''e'')"
| "eval_loop_event (TbEval t) = True"
| "eval_loop_event ModelReset = True"
| "eval_loop_event SubReset = True"
| "eval_loop_event _ = False"

section \<open>\<open>Agent.__init__\<close> and \<open>Agent.build\<close>\<close>

text \<open>
  The constructor: \<open>start_step\<close>, \<open>learn_started\<close>, the session and the summary are \<open>None\<close>, the
  run counter is \<open>-1\<close>.  The environment, the mode of its monitor, the episode state and
  the content of \<open>model_dir\<close> on disk are given.
\<close>

definition init_agent ::
  "config \<Rightarrow> 'e \<Rightarrow> char \<Rightarrow> 'x \<Rightarrow> 'p checkpoint list \<Rightarrow> ('e, 'o, 'a, 'r, 'p, 'x) agent" where
  "init_agent c e m x md =
     \<lparr>cfg = c, start_step = None, learn_started = None, eval_runs = - 1, env = e,
      mon_mode = m, mon_saved = None, sess = None, summary = None, graph = [],
      replay_buf = [], sub = x, model_dir = md, events = []\<rparr>"

text \<open>
  \<open>graph.get_operation_by_name\<close> raises \<open>KeyError\<close> for a name that no operation of the
  graph has.  A tensor name is the name of its operation, a colon and an output index;
  \<open>graph.get_tensor_by_name\<close> raises \<open>KeyError\<close> when the operation is not in the graph.
\<close>

definition get_operation_by_name :: "string list \<Rightarrow> string \<Rightarrow> py_error + string" where
  "get_operation_by_name g n = (if n \<in> set g then Inr n else Inl (KeyError n))"

definition tensor_op_name :: "string \<Rightarrow> string" where
  "tensor_op_name n = takeWhile (\<lambda>c. c \<noteq> CHR '':'') n"

definition get_tensor_by_name :: "string list \<Rightarrow> string \<Rightarrow> py_error + string" where
  "get_tensor_by_name g n = (if tensor_op_name n \<in> set g then Inr n else Inl (KeyError n))"

fun get_tensors :: "string list \<Rightarrow> string list \<Rightarrow> py_error + unit" where
  "get_tensors g [] = Inr ()"
| "get_tensors g (n # ns) = bind_err (get_tensor_by_name g n) (\<lambda>_. get_tensors g ns)"

text \<open>
  The graph after the build branch: the operations of the subclass and of the model, the
  variable created with \<open>name="t_tf"\<close>, the assignment created with \<open>name="t_inc_op"\<close>, and
  the operation of \<open>tf.summary.merge_all()\<close>, which the restore branch expects under the
  name \<open>Merge/MergeSummary\<close>.
\<close>

definition built_graph :: "('e, 'o, 'a, 'r, 'p, 'x) hooks \<Rightarrow> string list" where
  "built_graph h = model_build_ops h @ [''t_tf'', ''t_inc_op'', ''Merge/MergeSummary'']"

text \<open>
  The control assignments at the end of the restore branch: \<open>start_step\<close> is the value of
  \<open>t_tf\<close> in the restored session, \<open>learn_started\<close> is true.
\<close>

definition restore_control ::
  "'p checkpoint \<Rightarrow> ('e, 'o, 'a, 'r, 'p, 'x) agent \<Rightarrow> ('e, 'o, 'a, 'r, 'p, 'x) agent" where
  "restore_control ck a =
     a\<lparr>graph := ck_graph ck, sess := Some (ck_vars ck),
       start_step := Some (t_tf (ck_vars ck)), learn_started := Some True\<rparr>"

text \<open>
  \<open>build\<close>.  Without a checkpoint in \<open>model_dir\<close> the graph is built, \<open>t_tf\<close> is initialised
  to 1, \<open>start_step\<close> is 1, \<open>learn_started\<close> is false and \<open>model.initialize\<close> copies the
  parameters into the target network.  With a checkpoint, the graph of the newest one is
  imported and the handles are looked up by name, in the order of the source:
  \<open>"t_tf:0"\<close>, \<open>"t_tf_inc"\<close>, the names of the model and of the subclass,
  \<open>"Merge/MergeSummary:0"\<close>; the first lookup that fails raises.
\<close>

definition build ::
  "('e, 'o, 'a, 'r, 'p, 'x) hooks \<Rightarrow> ('e, 'o, 'a, 'r, 'p, 'x) agent
   \<Rightarrow> py_error + ('e, 'o, 'a, 'r, 'p, 'x) agent" where
  "build h a =
     (case model_dir a of
        [] \<Rightarrow>
          Inr (a\<lparr>graph := built_graph h,
                 start_step := Some 1,
                 learn_started := Some False,
                 sess := Some \<lparr>t_tf = 1, params = init_params h, target = init_params h\<rparr>\<rparr>)
      | ck # older \<Rightarrow>
          (let g = ck_graph ck in
           bind_err (get_tensor_by_name g ''t_tf:0'') (\<lambda>_.
           bind_err (get_operation_by_name g ''t_tf_inc'') (\<lambda>_.
           bind_err (get_tensors g (model_restore_names h)) (\<lambda>_.
           bind_err (get_tensor_by_name g ''Merge/MergeSummary:0'') (\<lambda>_.
           Inr (restore_control ck a)))))))"

section \<open>The DQN model: \<open>rltf/models/dqn.py\<close>\<close>

text \<open>
  The tensors that \<open>BaseDQN.build\<close> creates for action selection: the output of the agent
  network, \<open>tf.argmax\<close> over its last axis, and \<open>tf.identity\<close>; the string is the \<open>name\<close>
  argument.
\<close>

datatype tensor =
    AgentNet
  | ArgMax tensor string
  | Identity tensor string

text \<open>The value of a tensor for a batch: rows of Q-values, or one action per row.\<close>

datatype 'q tvalue = QVals "'q list list" | Acts "nat list"

record dqn =
  obs_shape :: "nat list"
  n_actions :: nat
  a_train :: "tensor option"
  a_eval :: "tensor option"

text \<open>\<open>tf.argmax\<close> of a row: the index of the largest entry, the smallest one on ties.\<close>

fun argmax_from :: "nat \<Rightarrow> nat \<Rightarrow> 'q::linorder \<Rightarrow> 'q list \<Rightarrow> nat" where
  "argmax_from i best v [] = best"
| "argmax_from i best v (x # xs) =
     (if v < x then argmax_from (Suc i) i x xs else argmax_from (Suc i) best v xs)"

fun argmax_row :: "'q::linorder list \<Rightarrow> nat" where
  "argmax_row [] = 0"
| "argmax_row (x # xs) = argmax_from 1 0 x xs"

text \<open>
  \<open>sess.run\<close> of a tensor, with the observations fed to \<open>obs_t_ph\<close>; \<open>net\<close> is the agent network
  at the current parameters, from an observation to its Q-values.
\<close>

fun run_tensor :: "('d \<Rightarrow> 'q::linorder list) \<Rightarrow> 'd list \<Rightarrow> tensor \<Rightarrow> py_error + 'q tvalue" where
  "run_tensor net batch AgentNet = Inr (QVals (map net batch))"
| "run_tensor net batch (ArgMax t n) =
     (case run_tensor net batch t of
        Inl e \<Rightarrow> Inl e
      | Inr (QVals rows) \<Rightarrow> Inr (Acts (map argmax_row rows))
      | Inr (Acts as) \<Rightarrow> Inl TypeError)"
| "run_tensor net batch (Identity t n) = run_tensor net batch t"

text \<open>\<open>DQN._act_train\<close> and \<open>DQN._act_eval\<close>; the latter reads \<open>self.a_train\<close>.\<close>

definition act_train :: "dqn \<Rightarrow> tensor \<Rightarrow> string \<Rightarrow> tensor" where
  "act_train m agent_net name = ArgMax agent_net name"

definition act_eval :: "dqn \<Rightarrow> tensor \<Rightarrow> string \<Rightarrow> py_error + tensor" where
  "act_eval m agent_net name =
     (case a_train m of None \<Rightarrow> Inl ValueError | Some tr \<Rightarrow> Inr (Identity tr name))"

text \<open>
  The part of \<open>BaseDQN.build\<close> that computes the train and eval actions: \<open>self.a_train\<close> is
  assigned before \<open>_act_eval\<close> is called.
\<close>

definition dqn_build :: "dqn \<Rightarrow> py_error + dqn" where
  "dqn_build m =
     (let m1 = m\<lparr>a_train := Some (act_train m AgentNet ''a_train'')\<rparr>
      in bind_err (act_eval m1 AgentNet ''a_eval'') (\<lambda>t. Inr (m1\<lparr>a_eval := Some t\<rparr>)))"

text \<open>
  Running an action tensor on the batch that holds one observation, and taking the
  first entry of the result.
\<close>

definition run_action ::
  "('d \<Rightarrow> 'q::linorder list) \<Rightarrow> tensor option \<Rightarrow> 'd \<Rightarrow> py_error + nat" where
  "run_action net tn d =
     (case tn of
        None \<Rightarrow> Inl TypeError
      | Some t \<Rightarrow>
          (case run_tensor net [d] t of
             Inl e \<Rightarrow> Inl e
           | Inr (Acts (x # xs)) \<Rightarrow> Inr x
           | Inr _ \<Rightarrow> Inl TypeError))"

text \<open>
  \<open>BaseDQN.action_train\<close> and \<open>BaseDQN.action_eval\<close>; a state is its shape and its content,
  and the assertion compares the shape with \<open>obs_shape\<close>.
\<close>

definition action_train ::
  "dqn \<Rightarrow> ('d \<Rightarrow> 'q::linorder list) \<Rightarrow> nat list \<times> 'd \<Rightarrow> py_error + nat" where
  "action_train m net state =
     (if fst state \<noteq> obs_shape m then Inl AssertionError
      else run_action net (a_train m) (snd state))"

definition action_eval ::
  "dqn \<Rightarrow> ('d \<Rightarrow> 'q::linorder list) \<Rightarrow> nat list \<times> 'd \<Rightarrow> py_error + nat" where
  "action_eval m net state =
     (if fst state \<noteq> obs_shape m then Inl AssertionError
      else run_action net (a_eval m) (snd state))"

section \<open>The handshake of \<open>OffPolicyAgent.train\<close>\<close>

text \<open>
  \<open>train\<close> runs three threads: the caller, \<open>env_thread\<close> (\<open>_run_env\<close>) and \<open>net_thread\<close>
  (\<open>_train_model\<close>).  They share the two \<open>threading.Event\<close> objects \<open>_act_chosen\<close> and
  \<open>_train_done\<close>.  The model interleaves the threads at the granularity of the operations
  on the events (\<open>is_set\<close>, \<open>wait\<close>, \<open>clear\<close>, \<open>set\<close>), each of which is atomic; the work between
  two such operations is one step that leaves the events alone and is assumed to return.
\<close>

datatype signal = ActChosen | TrainDone

datatype thread = MainThread | EnvThread | NetThread

text \<open>
  What is recorded of a run: the two statements of \<open>train\<close> before the threads are
  started, the start of a thread, and for the step \<open>t\<close> of an executor the test
  \<open>is_set()\<close> that found the signal set (\<open>Seen\<close>), the \<open>clear()\<close> that follows it (\<open>Cleared\<close>)
  and the \<open>set()\<close> of \<open>_signal_act_chosen\<close> or \<open>_signal_train_done\<close> (\<open>Signalled\<close>).
\<close>

datatype hs_event =
    PreClear signal
  | PreSet signal
  | Started thread
  | Seen signal int
  | Cleared signal int
  | Signalled signal int

text \<open>The program points of \<open>train\<close>, of \<open>_run_env\<close> and of \<open>_train_model\<close>.\<close>

datatype main_pc = MClear | MSet | MStartNet | MStartEnv | MJoinEnv | MJoinNet | MDone

datatype env_pc =
    EIdle | EReset | EFor | EWaitTest | EWaitBlock | EClear | EChoose | ESignal | EAct | EDone

datatype net_pc =
    NIdle | NFor | NPrepare | NWaitTest | NWaitBlock | NClear | NTrain | NSignal | NDone

record hs_state =
  act_chosen :: bool
  train_done :: bool
  main_pc :: main_pc
  env_pc :: env_pc
  env_t :: int
  net_pc :: net_pc
  net_t :: int
  trace :: "hs_event list"

text \<open>
  The state in which \<open>train\<close> is called: the events hold any values, no thread has been
  started, and both loops will begin at \<open>start_step\<close>.
\<close>

definition hs_init :: "bool \<Rightarrow> bool \<Rightarrow> int \<Rightarrow> hs_state" where
  "hs_init ac td s0 =
     \<lparr>act_chosen = ac, train_done = td, main_pc = MClear, env_pc = EIdle, env_t = s0,
      net_pc = NIdle, net_t = s0, trace = []\<rparr>"

definition emit :: "hs_event \<Rightarrow> hs_state \<Rightarrow> hs_state" where
  "emit e s = s\<lparr>trace := trace s @ [e]\<rparr>"

text \<open>
  \<open>train\<close>: \<open>self._act_chosen.clear()\<close>, \<open>self._train_done.set()\<close>, \<open>nn_thread.start()\<close>,
  \<open>env_thread.start()\<close>, \<open>env_thread.join()\<close>, \<open>nn_thread.join()\<close>.  A \<open>join\<close> can be taken
  only when the thread has ended.
\<close>

definition main_step :: "hs_state \<Rightarrow> hs_state option" where
  "main_step s =
     (case main_pc s of
        MClear \<Rightarrow> Some (emit (PreClear ActChosen) (s\<lparr>act_chosen := False, main_pc := MSet\<rparr>))
      | MSet \<Rightarrow> Some (emit (PreSet TrainDone) (s\<lparr>train_done := True, main_pc := MStartNet\<rparr>))
      | MStartNet \<Rightarrow> Some (emit (Started NetThread) (s\<lparr>net_pc := NFor, main_pc := MStartEnv\<rparr>))
      | MStartEnv \<Rightarrow> Some (emit (Started EnvThread) (s\<lparr>env_pc := EReset, main_pc := MJoinEnv\<rparr>))
      | MJoinEnv \<Rightarrow> (if env_pc s = EDone then Some (s\<lparr>main_pc := MJoinNet\<rparr>) else None)
      | MJoinNet \<Rightarrow> (if net_pc s = NDone then Some (s\<lparr>main_pc := MDone\<rparr>) else None)
      | MDone \<Rightarrow> None)"

text \<open>
  \<open>_run_env\<close>: \<open>obs = self.reset()\<close>; for each \<open>t\<close> up to \<open>stop_step\<close>: \<open>_wait_train_done\<close>
  (\<open>while not is_set(): wait()\<close>, then \<open>clear()\<close>), the evaluation and the choice of the
  action, \<open>_signal_act_chosen\<close>, and the rest of the iteration.  \<open>wait()\<close> returns only when
  the event is set.
\<close>

definition env_thread_step :: "int \<Rightarrow> hs_state \<Rightarrow> hs_state option" where
  "env_thread_step stop s =
     (case env_pc s of
        EIdle \<Rightarrow> None
      | EReset \<Rightarrow> Some (s\<lparr>env_pc := EFor\<rparr>)
      | EFor \<Rightarrow> Some (if env_t s \<le> stop then s\<lparr>env_pc := EWaitTest\<rparr> else s\<lparr>env_pc := EDone\<rparr>)
      | EWaitTest \<Rightarrow>
          Some (if train_done s then emit (Seen TrainDone (env_t s)) (s\<lparr>env_pc := EClear\<rparr>)
                else s\<lparr>env_pc := EWaitBlock\<rparr>)
      | EWaitBlock \<Rightarrow> (if train_done s then Some (s\<lparr>env_pc := EWaitTest\<rparr>) else None)
      | EClear \<Rightarrow>
          Some (emit (Cleared TrainDone (env_t s)) (s\<lparr>train_done := False, env_pc := EChoose\<rparr>))
      | EChoose \<Rightarrow> Some (s\<lparr>env_pc := ESignal\<rparr>)
      | ESignal \<Rightarrow>
          Some (emit (Signalled ActChosen (env_t s)) (s\<lparr>act_chosen := True, env_pc := EAct\<rparr>))
      | EAct \<Rightarrow> Some (s\<lparr>env_pc := EFor, env_t := env_t s + 1\<rparr>)
      | EDone \<Rightarrow> None)"

text \<open>
  \<open>_train_model\<close>: for each \<open>t\<close> up to \<open>stop_step\<close>: the test of the step (and on a training
  step the feed), \<open>_wait_act_chosen\<close>, which both branches call once, the training and
  the save, and \<open>_signal_train_done\<close>.
\<close>

definition net_thread_step :: "int \<Rightarrow> hs_state \<Rightarrow> hs_state option" where
  "net_thread_step stop s =
     (case net_pc s of
        NIdle \<Rightarrow> None
      | NFor \<Rightarrow> Some (if net_t s \<le> stop then s\<lparr>net_pc := NPrepare\<rparr> else s\<lparr>net_pc := NDone\<rparr>)
      | NPrepare \<Rightarrow> Some (s\<lparr>net_pc := NWaitTest\<rparr>)
      | NWaitTest \<Rightarrow>
          Some (if act_chosen s then emit (Seen ActChosen (net_t s)) (s\<lparr>net_pc := NClear\<rparr>)
                else s\<lparr>net_pc := NWaitBlock\<rparr>)
      | NWaitBlock \<Rightarrow> (if act_chosen s then Some (s\<lparr>net_pc := NWaitTest\<rparr>) else None)
      | NClear \<Rightarrow>
          Some (emit (Cleared ActChosen (net_t s)) (s\<lparr>act_chosen := False, net_pc := NTrain\<rparr>))
      | NTrain \<Rightarrow> Some (s\<lparr>net_pc := NSignal\<rparr>)
      | NSignal \<Rightarrow>
          Some (emit (Signalled TrainDone (net_t s))
                  (s\<lparr>train_done := True, net_pc := NFor, net_t := net_t s + 1\<rparr>))
      | NDone \<Rightarrow> None)"

text \<open>One step of the chosen thread; \<open>None\<close> if that thread cannot move.\<close>

fun hs_step :: "int \<Rightarrow> thread \<Rightarrow> hs_state \<Rightarrow> hs_state option" where
  "hs_step stop MainThread s = main_step s"
| "hs_step stop EnvThread s = env_thread_step stop s"
| "hs_step stop NetThread s = net_thread_step stop s"

text \<open>A run under a schedule, the list of the threads that move, in order.\<close>

fun hs_run :: "int \<Rightarrow> thread list \<Rightarrow> hs_state \<Rightarrow> hs_state option" where
  "hs_run stop [] s = Some s"
| "hs_run stop (th # ths) s =
     (case hs_step stop th s of None \<Rightarrow> None | Some s' \<Rightarrow> hs_run stop ths s')"

text \<open>
  The events of one step \<open>t\<close> in the order of the protocol, and the trace of a complete
  run from \<open>start_step\<close> to \<open>stop_step\<close>.
\<close>

definition hs_block :: "int \<Rightarrow> hs_event list" where
  "hs_block t =
     [Seen TrainDone t, Cleared TrainDone t, Signalled ActChosen t,
      Seen ActChosen t, Cleared ActChosen t, Signalled TrainDone t]"

definition hs_prelude :: "hs_event list" where
  "hs_prelude = [PreClear ActChosen, PreSet TrainDone, Started NetThread, Started EnvThread]"

definition hs_full_trace :: "int \<Rightarrow> int \<Rightarrow> hs_event list" where
  "hs_full_trace s0 stop = hs_prelude @ concat (map hs_block [s0..stop])"

text \<open>The steps at which a signal was set by an executor, resp. cleared by its waiter.\<close>

definition signalled_at :: "signal \<Rightarrow> hs_event list \<Rightarrow> int list" where
  "signalled_at sg tr =
     concat (map (\<lambda>e. case e of Signalled sg' t \<Rightarrow> (if sg' = sg then [t] else []) | _ \<Rightarrow> []) tr)"

definition cleared_at :: "signal \<Rightarrow> hs_event list \<Rightarrow> int list" where
  "cleared_at sg tr =
     concat (map (\<lambda>e. case e of Cleared sg' t \<Rightarrow> (if sg' = sg then [t] else []) | _ \<Rightarrow> []) tr)"

section \<open>Invariant and measure of the handshake\<close>

text \<open>
  How many of the three events of its current step an executor has produced: for
  \<open>_run_env\<close> the signal seen, cleared, and the action signalled; for \<open>_train_model\<close> the
  signal seen and cleared (its third event, the signal of \<open>train_done\<close>, ends the step).
\<close>

fun epos :: "env_pc \<Rightarrow> nat" where
  "epos EClear = 1"
| "epos EChoose = 2"
| "epos ESignal = 2"
| "epos EAct = 3"
| "epos _ = 0"

fun npos :: "net_pc \<Rightarrow> nat" where
  "npos NClear = 1"
| "npos NTrain = 2"
| "npos NSignal = 2"
| "npos _ = 0"

text \<open>
  The number of events of the step \<open>net_t\<close> that have happened, from where the two
  executors stand; and the combinations of positions that the protocol allows: the
  environment executor is at most one step ahead, and only after it has signalled its
  action; the learning executor moves into a step before the environment executor
  only while that one finishes the step before.
\<close>

definition hs_phase :: "hs_state \<Rightarrow> nat" where
  "hs_phase s =
     (if env_t s = net_t s then epos (env_pc s) + npos (net_pc s)
      else if env_t s = net_t s + 1 then 3 + npos (net_pc s)
      else 0)"

definition hs_aligned :: "hs_state \<Rightarrow> bool" where
  "hs_aligned s \<longleftrightarrow>
     (env_t s = net_t s \<and> (npos (net_pc s) = 0 \<or> epos (env_pc s) = 3))
     \<or> (env_t s = net_t s + 1 \<and> epos (env_pc s) = 0)
     \<or> (env_t s + 1 = net_t s \<and> epos (env_pc s) = 3 \<and> npos (net_pc s) = 0)"

text \<open>What \<open>train\<close> itself has recorded at each of its program points.\<close>

fun main_prefix :: "main_pc \<Rightarrow> hs_event list" where
  "main_prefix MClear = []"
| "main_prefix MSet = take 1 hs_prelude"
| "main_prefix MStartNet = take 2 hs_prelude"
| "main_prefix MStartEnv = take 3 hs_prelude"
| "main_prefix _ = hs_prelude"

text \<open>The events of all steps before \<open>t\<close> and the first \<open>k\<close> events of step \<open>t\<close>.\<close>

definition hs_upto :: "int \<Rightarrow> int \<Rightarrow> nat \<Rightarrow> hs_event list" where
  "hs_upto s0 t k = concat (map hs_block [s0..t - 1]) @ take k (hs_block t)"

text \<open>The program points inside the body of the loops.\<close>

fun env_in_loop :: "env_pc \<Rightarrow> bool" where
  "env_in_loop EIdle = False"
| "env_in_loop EReset = False"
| "env_in_loop EFor = False"
| "env_in_loop EDone = False"
| "env_in_loop _ = True"

fun net_in_loop :: "net_pc \<Rightarrow> bool" where
  "net_in_loop NIdle = False"
| "net_in_loop NFor = False"
| "net_in_loop NDone = False"
| "net_in_loop _ = True"

text \<open>
  The values of the two events as determined by the positions: \<open>train_done\<close> is set from
  the signal of the learning executor (or the pre-set) until the environment executor
  clears it, \<open>act_chosen\<close> from the signal of the environment executor until the learning
  executor clears it.
\<close>

definition flags_ok :: "hs_state \<Rightarrow> bool" where
  "flags_ok s \<longleftrightarrow>
     train_done s = (npos (net_pc s) = 0 \<and>
                    (env_t s = net_t s \<and> epos (env_pc s) \<le> 1 \<or> env_t s + 1 = net_t s))
     \<and> act_chosen s = (npos (net_pc s) \<le> 1 \<and>
                    (env_t s = net_t s \<and> epos (env_pc s) = 3 \<or> env_t s = net_t s + 1))"

text \<open>
  Which threads exist at each program point of \<open>train\<close>, and from where on the events
  hold their protocol values.
\<close>

definition threads_ok :: "hs_state \<Rightarrow> bool" where
  "threads_ok s \<longleftrightarrow>
     (case main_pc s of
        MClear \<Rightarrow> net_pc s = NIdle \<and> env_pc s = EIdle
      | MSet \<Rightarrow> net_pc s = NIdle \<and> env_pc s = EIdle \<and> \<not> act_chosen s
      | MStartNet \<Rightarrow> net_pc s = NIdle \<and> env_pc s = EIdle \<and> flags_ok s
      | MStartEnv \<Rightarrow> net_pc s \<noteq> NIdle \<and> env_pc s = EIdle \<and> flags_ok s
      | MJoinEnv \<Rightarrow> net_pc s \<noteq> NIdle \<and> env_pc s \<noteq> EIdle \<and> flags_ok s
      | MJoinNet \<Rightarrow> net_pc s \<noteq> NIdle \<and> env_pc s = EDone \<and> flags_ok s
      | MDone \<Rightarrow> net_pc s = NDone \<and> env_pc s = EDone \<and> flags_ok s)"

text \<open>The loop variables stay within \<open>start_step .. stop_step + 1\<close>.\<close>

definition range_ok :: "int \<Rightarrow> int \<Rightarrow> hs_state \<Rightarrow> bool" where
  "range_ok s0 stop s \<longleftrightarrow>
     s0 \<le> env_t s \<and> s0 \<le> net_t s
     \<and> env_t s \<le> max s0 (stop + 1) \<and> net_t s \<le> max s0 (stop + 1)
     \<and> (env_in_loop (env_pc s) \<longrightarrow> env_t s \<le> stop)
     \<and> (net_in_loop (net_pc s) \<longrightarrow> net_t s \<le> stop)
     \<and> (env_pc s = EDone \<longrightarrow> stop < env_t s)
     \<and> (net_pc s = NDone \<longrightarrow> stop < net_t s)
     \<and> (env_pc s = EIdle \<or> env_pc s = EReset \<longrightarrow> env_t s = s0)
     \<and> (net_pc s = NIdle \<longrightarrow> net_t s = s0)"

text \<open>The invariant of every reachable state.\<close>

definition hs_inv :: "int \<Rightarrow> int \<Rightarrow> hs_state \<Rightarrow> bool" where
  "hs_inv s0 stop s \<longleftrightarrow>
     trace s = main_prefix (main_pc s) @ hs_upto s0 (net_t s) (hs_phase s)
     \<and> hs_aligned s \<and> threads_ok s \<and> range_ok s0 stop s"


text \<open>
  A measure that every step of every thread decreases: the remaining iterations of the
  two loops and the remaining program points, where a test of an event that is set
  counts less than one of an event that is not.
\<close>

fun main_rank :: "main_pc \<Rightarrow> nat" where
  "main_rank MClear = 6"
| "main_rank MSet = 5"
| "main_rank MStartNet = 4"
| "main_rank MStartEnv = 3"
| "main_rank MJoinEnv = 2"
| "main_rank MJoinNet = 1"
| "main_rank MDone = 0"

fun env_pc_rank :: "bool \<Rightarrow> env_pc \<Rightarrow> nat" where
  "env_pc_rank td EIdle = 10"
| "env_pc_rank td EReset = 9"
| "env_pc_rank td EFor = 8"
| "env_pc_rank td EWaitTest = (if td then 5 else 7)"
| "env_pc_rank td EWaitBlock = 6"
| "env_pc_rank td EClear = 4"
| "env_pc_rank td EChoose = 3"
| "env_pc_rank td ESignal = 2"
| "env_pc_rank td EAct = 1"
| "env_pc_rank td EDone = 0"

fun net_pc_rank :: "bool \<Rightarrow> net_pc \<Rightarrow> nat" where
  "net_pc_rank ac NIdle = 10"
| "net_pc_rank ac NFor = 9"
| "net_pc_rank ac NPrepare = 8"
| "net_pc_rank ac NWaitTest = (if ac then 5 else 7)"
| "net_pc_rank ac NWaitBlock = 6"
| "net_pc_rank ac NClear = 4"
| "net_pc_rank ac NTrain = 3"
| "net_pc_rank ac NSignal = 2"
| "net_pc_rank ac NDone = 0"

definition hs_measure :: "int \<Rightarrow> hs_state \<Rightarrow> nat" where
  "hs_measure stop s =
     main_rank (main_pc s)
     + (12 * nat (stop + 1 - env_t s) + env_pc_rank (train_done s) (env_pc s))
     + (12 * nat (stop + 1 - net_t s) + net_pc_rank (act_chosen s) (net_pc s))"



section \<open>A deterministic stub agent\<close>

text \<open>
  A small environment and model on natural numbers: the environment counts its steps and
  ends an episode every fifth step, the training operation counts the updates of the
  parameters.  The configuration is the scenario \<open>train_freq=4\<close>, \<open>start_train=10\<close>,
  \<open>stop_step=20\<close>, \<open>batch_size=2\<close> with \<open>update_target_freq=10\<close>.
\<close>

definition stub_hooks :: "(nat, nat, nat, int, nat, nat) hooks" where
  "stub_hooks = \<lparr>env_reset = (\<lambda>e. (0, 0)), env_step = (\<lambda>e a. (Suc e, Suc e, 1, e mod 5 = 4)),
     env_sample = (\<lambda>e. (e, 0)), action_train_hook = (\<lambda>x p ob t. (x, p mod 2)),
     action_eval_hook = (\<lambda>p ob t. p mod 2), model_reset = (\<lambda>x. x), sub_reset = (\<lambda>x. 0),
     train_op = (\<lambda>feed p. Suc p),
     model_build_ops = [''train_op'', ''update_target'', ''a_train'', ''a_eval''],
     model_restore_names = [''a_train:0'', ''a_eval:0''], init_params = 0\<rparr>"

definition stub_config :: config where
  "stub_config = \<lparr>train_freq = 4, start_train = 10, stop_step = 20, eval_freq = 8, eval_len = 3,
     batch_size = 2, log_freq = 5, save_freq = 10, update_target_freq = 10\<rparr>"

definition stub_session :: "nat session" where
  "stub_session = \<lparr>t_tf = 1, params = 0, target = 0\<rparr>"

definition stub_agent :: "(nat, nat, nat, int, nat, nat) agent" where
  "stub_agent = \<lparr>cfg = stub_config, start_step = Some 1, learn_started = Some False,
     eval_runs = - 1, env = 0, mon_mode = CHR ''t'', mon_saved = None,
     sess = Some stub_session, summary = None, graph = [],
     replay_buf = [], sub = 0, model_dir = [], events = []\<rparr>"

text \<open>The stub agent with evaluation disabled and \<open>eval_freq = 0\<close>, for three steps.\<close>

definition no_eval_agent :: "(nat, nat, nat, int, nat, nat) agent" where
  "no_eval_agent = stub_agent\<lparr>cfg := stub_config\<lparr>eval_len := 0, eval_freq := 0, stop_step := 3\<rparr>\<rparr>"

text \<open>
  A schedule of the three threads for \<open>start_step = 1\<close>, \<open>stop_step = 2\<close>, and the state in
  which it ends.
\<close>

definition stub_schedule :: "thread list" where
  "stub_schedule =
     [MainThread, MainThread, MainThread, MainThread, EnvThread, EnvThread, NetThread,
      EnvThread, EnvThread, EnvThread, EnvThread, NetThread, NetThread, EnvThread, EnvThread,
      EnvThread, NetThread, NetThread, NetThread, EnvThread, EnvThread, NetThread, EnvThread,
      EnvThread, EnvThread, EnvThread, NetThread, NetThread, EnvThread, MainThread, NetThread,
      NetThread, NetThread, NetThread, MainThread]"

definition stub_final :: hs_state where
  "stub_final =
     \<lparr>act_chosen = False, train_done = True, main_pc = MDone, env_pc = EDone, env_t = 3,
      net_pc = NDone, net_t = 3,
      trace = [PreClear ActChosen, PreSet TrainDone, Started NetThread, Started EnvThread,
               Seen TrainDone 1, Cleared TrainDone 1, Signalled ActChosen 1,
               Seen ActChosen 1, Cleared ActChosen 1, Signalled TrainDone 1,
               Seen TrainDone 2, Cleared TrainDone 2, Signalled ActChosen 2,
               Seen ActChosen 2, Cleared ActChosen 2, Signalled TrainDone 2]\<rparr>"



text \<open>
  Two more agents for \<open>eval\<close>: one that has started learning, holds episode state and
  evaluates for six steps, so that an episode ends during the evaluation; and one with
  \<open>log_freq = 0\<close>, for which the loop of \<open>eval\<close> raises.
\<close>

definition episode_agent :: "(nat, nat, nat, int, nat, nat) agent" where
  "episode_agent = stub_agent\<lparr>cfg := stub_config\<lparr>eval_len := 6\<rparr>, learn_started := Some True, sub := 9\<rparr>"

definition raising_agent :: "(nat, nat, nat, int, nat, nat) agent" where
  "raising_agent = stub_agent\<lparr>cfg := stub_config\<lparr>log_freq := 0\<rparr>\<rparr>"


section \<open>Properties of the handshake\<close>

lemma hs_upto_steps:
  "hs_upto s0 t (Suc 0) = hs_upto s0 t 0 @ [Seen TrainDone t]"
  "hs_upto s0 t 2 = hs_upto s0 t (Suc 0) @ [Cleared TrainDone t]"
  "hs_upto s0 t 3 = hs_upto s0 t 2 @ [Signalled ActChosen t]"
  "hs_upto s0 t 4 = hs_upto s0 t 3 @ [Seen ActChosen t]"
  "hs_upto s0 t 5 = hs_upto s0 t 4 @ [Cleared ActChosen t]"
  by (simp_all add: hs_upto_def hs_block_def)

lemma hs_upto_next: "s0 \<le> t \<Longrightarrow> hs_upto s0 (t + 1) 0 = hs_upto s0 t 5 @ [Signalled TrainDone t]"
  by (simp add: hs_upto_def upto_rec2 hs_block_def)

lemma hs_upto_0: "hs_upto s0 s0 0 = []"
  by (simp add: hs_upto_def)

lemma hs_inv_init: "hs_inv s0 stop (hs_init ac td s0)"
  by (simp add: hs_inv_def hs_init_def hs_phase_def hs_aligned_def threads_ok_def range_ok_def
                hs_upto_0)

lemma env_thread_stepE:
  assumes "env_thread_step stop s = Some s'"
  obtains
    (EReset) "env_pc s = EReset" "s' = s\<lparr>env_pc := EFor\<rparr>"
  | (EForIn) "env_pc s = EFor" "env_t s \<le> stop" "s' = s\<lparr>env_pc := EWaitTest\<rparr>"
  | (EForOut) "env_pc s = EFor" "stop < env_t s" "s' = s\<lparr>env_pc := EDone\<rparr>"
  | (ESeen) "env_pc s = EWaitTest" "train_done s"
      "s' = s\<lparr>env_pc := EClear, trace := trace s @ [Seen TrainDone (env_t s)]\<rparr>"
  | (EBlock) "env_pc s = EWaitTest" "\<not> train_done s" "s' = s\<lparr>env_pc := EWaitBlock\<rparr>"
  | (EWake) "env_pc s = EWaitBlock" "train_done s" "s' = s\<lparr>env_pc := EWaitTest\<rparr>"
  | (EClear) "env_pc s = EClear"
      "s' = s\<lparr>train_done := False, env_pc := EChoose,
               trace := trace s @ [Cleared TrainDone (env_t s)]\<rparr>"
  | (EChoose) "env_pc s = EChoose" "s' = s\<lparr>env_pc := ESignal\<rparr>"
  | (ESignal) "env_pc s = ESignal"
      "s' = s\<lparr>act_chosen := True, env_pc := EAct,
               trace := trace s @ [Signalled ActChosen (env_t s)]\<rparr>"
  | (EAct) "env_pc s = EAct" "s' = s\<lparr>env_pc := EFor, env_t := env_t s + 1\<rparr>"
  using assms
  by (cases "env_pc s") (auto simp add: env_thread_step_def emit_def split: if_splits)

lemma net_thread_stepE:
  assumes "net_thread_step stop s = Some s'"
  obtains
    (NForIn) "net_pc s = NFor" "net_t s \<le> stop" "s' = s\<lparr>net_pc := NPrepare\<rparr>"
  | (NForOut) "net_pc s = NFor" "stop < net_t s" "s' = s\<lparr>net_pc := NDone\<rparr>"
  | (NPrepare) "net_pc s = NPrepare" "s' = s\<lparr>net_pc := NWaitTest\<rparr>"
  | (NSeen) "net_pc s = NWaitTest" "act_chosen s"
      "s' = s\<lparr>net_pc := NClear, trace := trace s @ [Seen ActChosen (net_t s)]\<rparr>"
  | (NBlock) "net_pc s = NWaitTest" "\<not> act_chosen s" "s' = s\<lparr>net_pc := NWaitBlock\<rparr>"
  | (NWake) "net_pc s = NWaitBlock" "act_chosen s" "s' = s\<lparr>net_pc := NWaitTest\<rparr>"
  | (NClear) "net_pc s = NClear"
      "s' = s\<lparr>act_chosen := False, net_pc := NTrain,
               trace := trace s @ [Cleared ActChosen (net_t s)]\<rparr>"
  | (NTrain) "net_pc s = NTrain" "s' = s\<lparr>net_pc := NSignal\<rparr>"
  | (NSignal) "net_pc s = NSignal"
      "s' = s\<lparr>train_done := True, net_pc := NFor, net_t := net_t s + 1,
               trace := trace s @ [Signalled TrainDone (net_t s)]\<rparr>"
  using assms
  by (cases "net_pc s") (auto simp add: net_thread_step_def emit_def split: if_splits)

lemma main_stepE:
  assumes "main_step s = Some s'"
  obtains
    (MClear) "main_pc s = MClear"
      "s' = s\<lparr>act_chosen := False, main_pc := MSet, trace := trace s @ [PreClear ActChosen]\<rparr>"
  | (MSet) "main_pc s = MSet"
      "s' = s\<lparr>train_done := True, main_pc := MStartNet, trace := trace s @ [PreSet TrainDone]\<rparr>"
  | (MStartNet) "main_pc s = MStartNet"
      "s' = s\<lparr>net_pc := NFor, main_pc := MStartEnv, trace := trace s @ [Started NetThread]\<rparr>"
  | (MStartEnv) "main_pc s = MStartEnv"
      "s' = s\<lparr>env_pc := EReset, main_pc := MJoinEnv, trace := trace s @ [Started EnvThread]\<rparr>"
  | (MJoinEnv) "main_pc s = MJoinEnv" "env_pc s = EDone" "s' = s\<lparr>main_pc := MJoinNet\<rparr>"
  | (MJoinNet) "main_pc s = MJoinNet" "net_pc s = NDone" "s' = s\<lparr>main_pc := MDone\<rparr>"
  using assms
  by (cases "main_pc s") (auto simp add: main_step_def emit_def split: if_splits)

lemma env_moves_main:
  assumes "threads_ok s" and "env_pc s \<noteq> EIdle" and "env_pc s \<noteq> EDone"
  shows "main_pc s = MJoinEnv \<and> flags_ok s \<and> net_pc s \<noteq> NIdle"
  using assms by (cases "main_pc s") (simp_all add: threads_ok_def)

lemma net_moves_main:
  assumes "threads_ok s" and "net_pc s \<noteq> NIdle" and "net_pc s \<noteq> NDone"
  shows "(main_pc s = MStartEnv \<or> main_pc s = MJoinEnv \<or> main_pc s = MJoinNet) \<and> flags_ok s"
  using assms by (cases "main_pc s") (simp_all add: threads_ok_def)

lemma env_step_aligned_flags:
  assumes "hs_aligned s" and "flags_ok s" and "env_thread_step stop s = Some s'"
  shows "hs_aligned s' \<and> flags_ok s'"
  using assms(3)
proof (cases rule: env_thread_stepE)
  case EReset
  with assms(1,2) show ?thesis
    by (simp add: hs_aligned_def flags_ok_def; elim conjE disjE; simp add: hs_aligned_def flags_ok_def)
next
  case EForIn
  with assms(1,2) show ?thesis
    by (simp add: hs_aligned_def flags_ok_def; elim conjE disjE; simp add: hs_aligned_def flags_ok_def)
next
  case EForOut
  with assms(1,2) show ?thesis
    by (simp add: hs_aligned_def flags_ok_def; elim conjE disjE; simp add: hs_aligned_def flags_ok_def)
next
  case ESeen
  with assms(1,2) show ?thesis
    by (simp add: hs_aligned_def flags_ok_def; elim conjE disjE; simp add: hs_aligned_def flags_ok_def)
next
  case EBlock
  with assms(1,2) show ?thesis
    by (simp add: hs_aligned_def flags_ok_def; elim conjE disjE; simp add: hs_aligned_def flags_ok_def)
next
  case EWake
  with assms(1,2) show ?thesis
    by (simp add: hs_aligned_def flags_ok_def; elim conjE disjE; simp add: hs_aligned_def flags_ok_def)
next
  case EClear
  with assms(1,2) show ?thesis
    by (simp add: hs_aligned_def flags_ok_def; elim conjE disjE; simp add: hs_aligned_def flags_ok_def)
next
  case EChoose
  with assms(1,2) show ?thesis
    by (simp add: hs_aligned_def flags_ok_def; elim conjE disjE; simp add: hs_aligned_def flags_ok_def)
next
  case ESignal
  with assms(1,2) show ?thesis
    by (simp add: hs_aligned_def flags_ok_def; elim conjE disjE; simp add: hs_aligned_def flags_ok_def)
next
  case EAct
  with assms(1,2) show ?thesis
    by (simp add: hs_aligned_def flags_ok_def; elim conjE disjE; simp add: hs_aligned_def flags_ok_def)
qed

lemma net_step_aligned_flags:
  assumes "hs_aligned s" and "flags_ok s" and "net_thread_step stop s = Some s'"
  shows "hs_aligned s' \<and> flags_ok s'"
  using assms(3)
proof (cases rule: net_thread_stepE)
  case NForIn
  with assms(1,2) show ?thesis
    by (simp add: hs_aligned_def flags_ok_def; elim conjE disjE; simp add: hs_aligned_def flags_ok_def)
next
  case NForOut
  with assms(1,2) show ?thesis
    by (simp add: hs_aligned_def flags_ok_def; elim conjE disjE; simp add: hs_aligned_def flags_ok_def)
next
  case NPrepare
  with assms(1,2) show ?thesis
    by (simp add: hs_aligned_def flags_ok_def; elim conjE disjE; simp add: hs_aligned_def flags_ok_def)
next
  case NSeen
  with assms(1,2) show ?thesis
    by (simp add: hs_aligned_def flags_ok_def; elim conjE disjE; simp add: hs_aligned_def flags_ok_def)
next
  case NBlock
  with assms(1,2) show ?thesis
    by (simp add: hs_aligned_def flags_ok_def; elim conjE disjE; simp add: hs_aligned_def flags_ok_def)
next
  case NWake
  with assms(1,2) show ?thesis
    by (simp add: hs_aligned_def flags_ok_def; elim conjE disjE; simp add: hs_aligned_def flags_ok_def)
next
  case NClear
  with assms(1,2) show ?thesis
    by (simp add: hs_aligned_def flags_ok_def; elim conjE disjE; simp add: hs_aligned_def flags_ok_def)
next
  case NTrain
  with assms(1,2) show ?thesis
    by (simp add: hs_aligned_def flags_ok_def; elim conjE disjE; simp add: hs_aligned_def flags_ok_def)
next
  case NSignal
  with assms(1,2) show ?thesis
    by (simp add: hs_aligned_def flags_ok_def; elim conjE disjE; simp add: hs_aligned_def flags_ok_def)
qed

lemma env_step_range:
  assumes "range_ok s0 stop s" and "env_thread_step stop s = Some s'"
  shows "range_ok s0 stop s'"
  using assms(2)
proof (cases rule: env_thread_stepE)
  case EReset
  with assms(1) show ?thesis
    by (simp add: range_ok_def; elim conjE disjE; simp add: range_ok_def)
next
  case EForIn
  with assms(1) show ?thesis
    by (simp add: range_ok_def; elim conjE disjE; simp add: range_ok_def)
next
  case EForOut
  with assms(1) show ?thesis
    by (simp add: range_ok_def; elim conjE disjE; simp add: range_ok_def)
next
  case ESeen
  with assms(1) show ?thesis
    by (simp add: range_ok_def; elim conjE disjE; simp add: range_ok_def)
next
  case EBlock
  with assms(1) show ?thesis
    by (simp add: range_ok_def; elim conjE disjE; simp add: range_ok_def)
next
  case EWake
  with assms(1) show ?thesis
    by (simp add: range_ok_def; elim conjE disjE; simp add: range_ok_def)
next
  case EClear
  with assms(1) show ?thesis
    by (simp add: range_ok_def; elim conjE disjE; simp add: range_ok_def)
next
  case EChoose
  with assms(1) show ?thesis
    by (simp add: range_ok_def; elim conjE disjE; simp add: range_ok_def)
next
  case ESignal
  with assms(1) show ?thesis
    by (simp add: range_ok_def; elim conjE disjE; simp add: range_ok_def)
next
  case EAct
  with assms(1) show ?thesis
    by (simp add: range_ok_def; elim conjE disjE; simp add: range_ok_def)
qed

lemma net_step_range:
  assumes "range_ok s0 stop s" and "net_thread_step stop s = Some s'"
  shows "range_ok s0 stop s'"
  using assms(2)
proof (cases rule: net_thread_stepE)
  case NForIn
  with assms(1) show ?thesis
    by (simp add: range_ok_def; elim conjE disjE; simp add: range_ok_def)
next
  case NForOut
  with assms(1) show ?thesis
    by (simp add: range_ok_def; elim conjE disjE; simp add: range_ok_def)
next
  case NPrepare
  with assms(1) show ?thesis
    by (simp add: range_ok_def; elim conjE disjE; simp add: range_ok_def)
next
  case NSeen
  with assms(1) show ?thesis
    by (simp add: range_ok_def; elim conjE disjE; simp add: range_ok_def)
next
  case NBlock
  with assms(1) show ?thesis
    by (simp add: range_ok_def; elim conjE disjE; simp add: range_ok_def)
next
  case NWake
  with assms(1) show ?thesis
    by (simp add: range_ok_def; elim conjE disjE; simp add: range_ok_def)
next
  case NClear
  with assms(1) show ?thesis
    by (simp add: range_ok_def; elim conjE disjE; simp add: range_ok_def)
next
  case NTrain
  with assms(1) show ?thesis
    by (simp add: range_ok_def; elim conjE disjE; simp add: range_ok_def)
next
  case NSignal
  with assms(1) show ?thesis
    by (simp add: range_ok_def; elim conjE disjE; simp add: range_ok_def)
qed

lemma env_step_trace:
  assumes "trace s = pre @ hs_upto s0 (net_t s) (hs_phase s)"
    and "hs_aligned s" and "flags_ok s" and "env_thread_step stop s = Some s'"
  shows "trace s' = pre @ hs_upto s0 (net_t s') (hs_phase s')"
  using assms(4)
proof (cases rule: env_thread_stepE)
  case EReset
  with assms(1,2,3) show ?thesis
    by (simp add: hs_aligned_def flags_ok_def hs_phase_def hs_upto_steps; elim conjE disjE; simp add: hs_aligned_def flags_ok_def hs_phase_def hs_upto_steps)
next
  case EForIn
  with assms(1,2,3) show ?thesis
    by (simp add: hs_aligned_def flags_ok_def hs_phase_def hs_upto_steps; elim conjE disjE; simp add: hs_aligned_def flags_ok_def hs_phase_def hs_upto_steps)
next
  case EForOut
  with assms(1,2,3) show ?thesis
    by (simp add: hs_aligned_def flags_ok_def hs_phase_def hs_upto_steps; elim conjE disjE; simp add: hs_aligned_def flags_ok_def hs_phase_def hs_upto_steps)
next
  case ESeen
  with assms(1,2,3) show ?thesis
    by (simp add: hs_aligned_def flags_ok_def hs_phase_def hs_upto_steps; elim conjE disjE; simp add: hs_aligned_def flags_ok_def hs_phase_def hs_upto_steps)
next
  case EBlock
  with assms(1,2,3) show ?thesis
    by (simp add: hs_aligned_def flags_ok_def hs_phase_def hs_upto_steps; elim conjE disjE; simp add: hs_aligned_def flags_ok_def hs_phase_def hs_upto_steps)
next
  case EWake
  with assms(1,2,3) show ?thesis
    by (simp add: hs_aligned_def flags_ok_def hs_phase_def hs_upto_steps; elim conjE disjE; simp add: hs_aligned_def flags_ok_def hs_phase_def hs_upto_steps)
next
  case EClear
  with assms(1,2,3) show ?thesis
    by (simp add: hs_aligned_def flags_ok_def hs_phase_def hs_upto_steps; elim conjE disjE; simp add: hs_aligned_def flags_ok_def hs_phase_def hs_upto_steps)
next
  case EChoose
  with assms(1,2,3) show ?thesis
    by (simp add: hs_aligned_def flags_ok_def hs_phase_def hs_upto_steps; elim conjE disjE; simp add: hs_aligned_def flags_ok_def hs_phase_def hs_upto_steps)
next
  case ESignal
  with assms(1,2,3) show ?thesis
    by (simp add: hs_aligned_def flags_ok_def hs_phase_def hs_upto_steps; elim conjE disjE; simp add: hs_aligned_def flags_ok_def hs_phase_def hs_upto_steps)
next
  case EAct
  with assms(1,2,3) show ?thesis
    by (simp add: hs_aligned_def flags_ok_def hs_phase_def hs_upto_steps; elim conjE disjE; simp add: hs_aligned_def flags_ok_def hs_phase_def hs_upto_steps)
qed

lemma net_step_trace:
  assumes "trace s = pre @ hs_upto s0 (net_t s) (hs_phase s)"
    and "hs_aligned s" and "flags_ok s" and "s0 \<le> net_t s" and "net_thread_step stop s = Some s'"
  shows "trace s' = pre @ hs_upto s0 (net_t s') (hs_phase s')"
  using assms(5)
proof (cases rule: net_thread_stepE)
  case NForIn
  with assms(1,2,3,4) show ?thesis
    by (simp add: hs_aligned_def flags_ok_def hs_phase_def hs_upto_steps hs_upto_next; elim conjE disjE; simp add: hs_aligned_def flags_ok_def hs_phase_def hs_upto_steps hs_upto_next)
next
  case NForOut
  with assms(1,2,3,4) show ?thesis
    by (simp add: hs_aligned_def flags_ok_def hs_phase_def hs_upto_steps hs_upto_next; elim conjE disjE; simp add: hs_aligned_def flags_ok_def hs_phase_def hs_upto_steps hs_upto_next)
next
  case NPrepare
  with assms(1,2,3,4) show ?thesis
    by (simp add: hs_aligned_def flags_ok_def hs_phase_def hs_upto_steps hs_upto_next; elim conjE disjE; simp add: hs_aligned_def flags_ok_def hs_phase_def hs_upto_steps hs_upto_next)
next
  case NSeen
  with assms(1,2,3,4) show ?thesis
    by (simp add: hs_aligned_def flags_ok_def hs_phase_def hs_upto_steps hs_upto_next; elim conjE disjE; simp add: hs_aligned_def flags_ok_def hs_phase_def hs_upto_steps hs_upto_next)
next
  case NBlock
  with assms(1,2,3,4) show ?thesis
    by (simp add: hs_aligned_def flags_ok_def hs_phase_def hs_upto_steps hs_upto_next; elim conjE disjE; simp add: hs_aligned_def flags_ok_def hs_phase_def hs_upto_steps hs_upto_next)
next
  case NWake
  with assms(1,2,3,4) show ?thesis
    by (simp add: hs_aligned_def flags_ok_def hs_phase_def hs_upto_steps hs_upto_next; elim conjE disjE; simp add: hs_aligned_def flags_ok_def hs_phase_def hs_upto_steps hs_upto_next)
next
  case NClear
  with assms(1,2,3,4) show ?thesis
    by (simp add: hs_aligned_def flags_ok_def hs_phase_def hs_upto_steps hs_upto_next; elim conjE disjE; simp add: hs_aligned_def flags_ok_def hs_phase_def hs_upto_steps hs_upto_next)
next
  case NTrain
  with assms(1,2,3,4) show ?thesis
    by (simp add: hs_aligned_def flags_ok_def hs_phase_def hs_upto_steps hs_upto_next; elim conjE disjE; simp add: hs_aligned_def flags_ok_def hs_phase_def hs_upto_steps hs_upto_next)
next
  case NSignal
  with assms(1,2,3,4) show ?thesis
    by (simp add: hs_aligned_def flags_ok_def hs_phase_def hs_upto_steps hs_upto_next; elim conjE disjE; simp add: hs_aligned_def flags_ok_def hs_phase_def hs_upto_steps hs_upto_next)
qed

lemma env_step_pcs:
  assumes "env_thread_step stop s = Some s'"
  shows "env_pc s \<noteq> EIdle \<and> env_pc s \<noteq> EDone \<and> env_pc s' \<noteq> EIdle
         \<and> main_pc s' = main_pc s \<and> net_pc s' = net_pc s \<and> net_t s' = net_t s"
  using assms by (cases rule: env_thread_stepE) simp_all

lemma net_step_pcs:
  assumes "net_thread_step stop s = Some s'"
  shows "net_pc s \<noteq> NIdle \<and> net_pc s \<noteq> NDone \<and> net_pc s' \<noteq> NIdle
         \<and> main_pc s' = main_pc s \<and> env_pc s' = env_pc s \<and> env_t s' = env_t s"
  using assms by (cases rule: net_thread_stepE) simp_all

lemma hs_inv_env:
  assumes "hs_inv s0 stop s" and "env_thread_step stop s = Some s'"
  shows "hs_inv s0 stop s'"
proof -
  from assms(1) have tr: "trace s = main_prefix (main_pc s) @ hs_upto s0 (net_t s) (hs_phase s)"
    and al: "hs_aligned s" and th: "threads_ok s" and rg: "range_ok s0 stop s"
    by (simp_all add: hs_inv_def)
  note pcs = env_step_pcs[OF assms(2)]
  from env_moves_main[OF th] pcs have m: "main_pc s = MJoinEnv" and fl: "flags_ok s"
    and nn: "net_pc s \<noteq> NIdle"
    by simp_all
  from env_step_aligned_flags[OF al fl assms(2)] have al': "hs_aligned s'" and fl': "flags_ok s'"
    by simp_all
  have th': "threads_ok s'" using pcs m nn fl' by (simp add: threads_ok_def)
  have rg': "range_ok s0 stop s'" using rg assms(2) by (rule env_step_range)
  have "trace s' = main_prefix (main_pc s) @ hs_upto s0 (net_t s') (hs_phase s')"
    using tr al fl assms(2) by (rule env_step_trace)
  then have tr': "trace s' = main_prefix (main_pc s') @ hs_upto s0 (net_t s') (hs_phase s')"
    using pcs by simp
  from tr' al' th' rg' show ?thesis by (simp add: hs_inv_def)
qed

lemma hs_inv_net:
  assumes "hs_inv s0 stop s" and "net_thread_step stop s = Some s'"
  shows "hs_inv s0 stop s'"
proof -
  from assms(1) have tr: "trace s = main_prefix (main_pc s) @ hs_upto s0 (net_t s) (hs_phase s)"
    and al: "hs_aligned s" and th: "threads_ok s" and rg: "range_ok s0 stop s"
    by (simp_all add: hs_inv_def)
  note pcs = net_step_pcs[OF assms(2)]
  from net_moves_main[OF th] pcs
  have m: "main_pc s = MStartEnv \<or> main_pc s = MJoinEnv \<or> main_pc s = MJoinNet"
    and fl: "flags_ok s"
    by simp_all
  from net_step_aligned_flags[OF al fl assms(2)] have al': "hs_aligned s'" and fl': "flags_ok s'"
    by simp_all
  have th': "threads_ok s'"
    using m th pcs fl' by (elim disjE) (simp_all add: threads_ok_def)
  have rg': "range_ok s0 stop s'" using rg assms(2) by (rule net_step_range)
  have s0n: "s0 \<le> net_t s" using rg by (simp add: range_ok_def)
  have "trace s' = main_prefix (main_pc s) @ hs_upto s0 (net_t s') (hs_phase s')"
    using tr al fl s0n assms(2) by (rule net_step_trace)
  then have tr': "trace s' = main_prefix (main_pc s') @ hs_upto s0 (net_t s') (hs_phase s')"
    using pcs by simp
  from tr' al' th' rg' show ?thesis by (simp add: hs_inv_def)
qed

lemma env_idle_phase:
  assumes "hs_aligned s" and "range_ok s0 stop s" and "env_pc s = EIdle"
  shows "net_t s = s0 \<and> env_t s = s0 \<and> npos (net_pc s) = 0 \<and> hs_phase s = 0"
  using assms
  by (simp add: hs_aligned_def range_ok_def hs_phase_def; elim conjE disjE; simp)

lemma hs_aligned_cong:
  "env_t s' = env_t s \<Longrightarrow> net_t s' = net_t s \<Longrightarrow> epos (env_pc s') = epos (env_pc s)
   \<Longrightarrow> npos (net_pc s') = npos (net_pc s) \<Longrightarrow> hs_aligned s' = hs_aligned s"
  by (simp add: hs_aligned_def)

lemma hs_phase_cong:
  "env_t s' = env_t s \<Longrightarrow> net_t s' = net_t s \<Longrightarrow> epos (env_pc s') = epos (env_pc s)
   \<Longrightarrow> npos (net_pc s') = npos (net_pc s) \<Longrightarrow> hs_phase s' = hs_phase s"
  by (simp add: hs_phase_def)

lemma flags_ok_cong:
  "env_t s' = env_t s \<Longrightarrow> net_t s' = net_t s \<Longrightarrow> epos (env_pc s') = epos (env_pc s)
   \<Longrightarrow> npos (net_pc s') = npos (net_pc s) \<Longrightarrow> train_done s' = train_done s
   \<Longrightarrow> act_chosen s' = act_chosen s \<Longrightarrow> flags_ok s' = flags_ok s"
  by (simp add: flags_ok_def)

lemma range_ok_cong:
  "env_t s' = env_t s \<Longrightarrow> net_t s' = net_t s \<Longrightarrow> env_pc s' = env_pc s
   \<Longrightarrow> net_pc s' = net_pc s \<Longrightarrow> range_ok s0 stop s' = range_ok s0 stop s"
  by (simp add: range_ok_def)

lemma flags_ok_idle:
  assumes "env_pc s = EIdle" and "npos (net_pc s) = 0" and "env_t s = net_t s"
  shows "flags_ok s \<longleftrightarrow> train_done s \<and> \<not> act_chosen s"
  using assms by (simp add: flags_ok_def)

lemma hs_inv_main:
  assumes "hs_inv s0 stop s" and "main_step s = Some s'"
  shows "hs_inv s0 stop s'"
proof -
  from assms(1) have tr: "trace s = main_prefix (main_pc s) @ hs_upto s0 (net_t s) (hs_phase s)"
    and al: "hs_aligned s" and th: "threads_ok s" and rg: "range_ok s0 stop s"
    by (simp_all add: hs_inv_def)
  from assms(2) show ?thesis
  proof (cases rule: main_stepE)
    case MClear
    with th have i: "env_pc s = EIdle" "net_pc s = NIdle" by (simp_all add: threads_ok_def)
    from env_idle_phase[OF al rg i(1)]
    have p: "net_t s = s0" "env_t s = s0" "hs_phase s = 0" by simp_all
    have e: "env_t s' = env_t s" "net_t s' = net_t s" "env_pc s' = env_pc s"
      "net_pc s' = net_pc s" "main_pc s' = MSet" "\<not> act_chosen s'"
      "trace s' = trace s @ [PreClear ActChosen]"
      by (simp_all add: MClear)
    have "hs_aligned s'" using al hs_aligned_cong[of s' s] e by simp
    moreover have "range_ok s0 stop s'" using rg range_ok_cong[of s' s] e by simp
    moreover have "threads_ok s'" using e i by (simp add: threads_ok_def)
    moreover have "hs_phase s' = 0" using p hs_phase_cong[of s' s] e by simp
    then have "trace s' = main_prefix (main_pc s') @ hs_upto s0 (net_t s') (hs_phase s')"
      using tr MClear(1) p e by (simp add: hs_upto_0 hs_prelude_def)
    ultimately show ?thesis by (simp add: hs_inv_def)
  next
    case MSet
    with th have i: "env_pc s = EIdle" "net_pc s = NIdle" "\<not> act_chosen s"
      by (simp_all add: threads_ok_def)
    from env_idle_phase[OF al rg i(1)]
    have p: "net_t s = s0" "env_t s = s0" "hs_phase s = 0" by simp_all
    have e: "env_t s' = env_t s" "net_t s' = net_t s" "env_pc s' = env_pc s"
      "net_pc s' = net_pc s" "main_pc s' = MStartNet" "\<not> act_chosen s'" "train_done s'"
      "trace s' = trace s @ [PreSet TrainDone]"
      using i by (simp_all add: MSet)
    have "hs_aligned s'" using al hs_aligned_cong[of s' s] e by simp
    moreover have "range_ok s0 stop s'" using rg range_ok_cong[of s' s] e by simp
    moreover have "flags_ok s'" using flags_ok_idle[of s'] e i p by simp
    then have "threads_ok s'" using e i by (simp add: threads_ok_def)
    moreover have "hs_phase s' = 0" using p hs_phase_cong[of s' s] e by simp
    then have "trace s' = main_prefix (main_pc s') @ hs_upto s0 (net_t s') (hs_phase s')"
      using tr MSet(1) p e by (simp add: hs_upto_0 hs_prelude_def)
    ultimately show ?thesis by (simp add: hs_inv_def)
  next
    case MStartNet
    with th have i: "env_pc s = EIdle" "net_pc s = NIdle" "flags_ok s"
      by (simp_all add: threads_ok_def)
    from env_idle_phase[OF al rg i(1)]
    have p: "net_t s = s0" "env_t s = s0" "hs_phase s = 0" by simp_all
    have e: "env_t s' = env_t s" "net_t s' = net_t s" "env_pc s' = env_pc s"
      "net_pc s' = NFor" "main_pc s' = MStartEnv" "act_chosen s' = act_chosen s"
      "train_done s' = train_done s"
      "trace s' = trace s @ [Started NetThread]"
      by (simp_all add: MStartNet)
    have "hs_aligned s'" using al hs_aligned_cong[of s' s] e i by simp
    moreover have "range_ok s0 stop s'" using rg e i by (simp add: range_ok_def)
    moreover have "flags_ok s'" using flags_ok_cong[of s' s] e i by simp
    then have "threads_ok s'" using e i by (simp add: threads_ok_def)
    moreover have "hs_phase s' = 0" using p hs_phase_cong[of s' s] e i by simp
    then have "trace s' = main_prefix (main_pc s') @ hs_upto s0 (net_t s') (hs_phase s')"
      using tr MStartNet(1) p e by (simp add: hs_upto_0 hs_prelude_def)
    ultimately show ?thesis by (simp add: hs_inv_def)
  next
    case MStartEnv
    with th have i: "env_pc s = EIdle" "net_pc s \<noteq> NIdle" "flags_ok s"
      by (simp_all add: threads_ok_def)
    from env_idle_phase[OF al rg i(1)]
    have p: "net_t s = s0" "env_t s = s0" "hs_phase s = 0" by simp_all
    have e: "env_t s' = env_t s" "net_t s' = net_t s" "env_pc s' = EReset"
      "net_pc s' = net_pc s" "main_pc s' = MJoinEnv" "act_chosen s' = act_chosen s"
      "train_done s' = train_done s"
      "trace s' = trace s @ [Started EnvThread]"
      by (simp_all add: MStartEnv)
    have "hs_aligned s'" using al hs_aligned_cong[of s' s] e i by simp
    moreover have "range_ok s0 stop s'" using rg e i by (simp add: range_ok_def)
    moreover have "flags_ok s'" using flags_ok_cong[of s' s] e i by simp
    then have "threads_ok s'" using e i by (simp add: threads_ok_def)
    moreover have "hs_phase s' = 0" using p hs_phase_cong[of s' s] e i by simp
    then have "trace s' = main_prefix (main_pc s') @ hs_upto s0 (net_t s') (hs_phase s')"
      using tr MStartEnv(1) p e by (simp add: hs_upto_0 hs_prelude_def)
    ultimately show ?thesis by (simp add: hs_inv_def)
  next
    case MJoinEnv
    with th have i: "net_pc s \<noteq> NIdle" "flags_ok s" by (simp_all add: threads_ok_def)
    have e: "env_t s' = env_t s" "net_t s' = net_t s" "env_pc s' = env_pc s"
      "net_pc s' = net_pc s" "main_pc s' = MJoinNet" "act_chosen s' = act_chosen s"
      "train_done s' = train_done s" "trace s' = trace s"
      by (simp_all add: MJoinEnv)
    have "hs_aligned s'" using al hs_aligned_cong[of s' s] e by simp
    moreover have "range_ok s0 stop s'" using rg range_ok_cong[of s' s] e by simp
    moreover have "flags_ok s'" using flags_ok_cong[of s' s] e i by simp
    then have "threads_ok s'" using e i MJoinEnv(2) by (simp add: threads_ok_def)
    moreover have "hs_phase s' = hs_phase s" using hs_phase_cong[of s' s] e by simp
    then have "trace s' = main_prefix (main_pc s') @ hs_upto s0 (net_t s') (hs_phase s')"
      using tr MJoinEnv(1) e by simp
    ultimately show ?thesis by (simp add: hs_inv_def)
  next
    case MJoinNet
    with th have i: "env_pc s = EDone" "flags_ok s" by (simp_all add: threads_ok_def)
    have e: "env_t s' = env_t s" "net_t s' = net_t s" "env_pc s' = env_pc s"
      "net_pc s' = net_pc s" "main_pc s' = MDone" "act_chosen s' = act_chosen s"
      "train_done s' = train_done s" "trace s' = trace s"
      by (simp_all add: MJoinNet)
    have "hs_aligned s'" using al hs_aligned_cong[of s' s] e by simp
    moreover have "range_ok s0 stop s'" using rg range_ok_cong[of s' s] e by simp
    moreover have "flags_ok s'" using flags_ok_cong[of s' s] e i by simp
    then have "threads_ok s'" using e i MJoinNet(2) by (simp add: threads_ok_def)
    moreover have "hs_phase s' = hs_phase s" using hs_phase_cong[of s' s] e by simp
    then have "trace s' = main_prefix (main_pc s') @ hs_upto s0 (net_t s') (hs_phase s')"
      using tr MJoinNet(1) e by simp
    ultimately show ?thesis by (simp add: hs_inv_def)
  qed
qed

lemma hs_inv_step:
  assumes "hs_inv s0 stop s" and "hs_step stop th s = Some s'"
  shows "hs_inv s0 stop s'"
proof (cases th)
  case MainThread
  with assms(2) have "main_step s = Some s'" by simp
  with assms(1) show ?thesis by (rule hs_inv_main)
next
  case EnvThread
  with assms(2) have "env_thread_step stop s = Some s'" by simp
  with assms(1) show ?thesis by (rule hs_inv_env)
next
  case NetThread
  with assms(2) have "net_thread_step stop s = Some s'" by simp
  with assms(1) show ?thesis by (rule hs_inv_net)
qed

lemma hs_inv_run:
  assumes "hs_inv s0 stop s" and "hs_run stop sched s = Some s'"
  shows "hs_inv s0 stop s'"
  using assms
proof (induction sched arbitrary: s)
  case Nil
  then show ?case by simp
next
  case (Cons th ths)
  from Cons.prems(2) obtain s1 where s1: "hs_step stop th s = Some s1"
    and r: "hs_run stop ths s1 = Some s'"
    by (cases "hs_step stop th s") simp_all
  from hs_inv_step[OF Cons.prems(1) s1] have "hs_inv s0 stop s1" .
  from Cons.IH[OF this r] show ?case .
qed

lemma hs_inv_reachable:
  "hs_run stop sched (hs_init ac td s0) = Some s \<Longrightarrow> hs_inv s0 stop s"
  by (rule hs_inv_run[OF hs_inv_init])

lemma hs_final_trace:
  assumes "hs_inv s0 stop s" and "main_pc s = MDone"
  shows "trace s = hs_full_trace s0 stop"
proof -
  from assms have tr: "trace s = hs_prelude @ hs_upto s0 (net_t s) (hs_phase s)"
    and th: "net_pc s = NDone" "env_pc s = EDone" and rg: "range_ok s0 stop s"
    by (simp_all add: hs_inv_def threads_ok_def)
  from rg th have t: "stop < env_t s" "stop < net_t s" "env_t s \<le> max s0 (stop + 1)"
    "net_t s \<le> max s0 (stop + 1)" "s0 \<le> net_t s" "s0 \<le> env_t s"
    by (simp_all add: range_ok_def)
  then have eq: "env_t s = net_t s" by (simp add: max_def split: if_splits)
  then have ph: "hs_phase s = 0" using th by (simp add: hs_phase_def)
  have "[s0..net_t s - 1] = [s0..stop]"
  proof (cases "s0 \<le> stop + 1")
    case True
    with t have "net_t s = stop + 1" by (simp add: max_def)
    then show ?thesis by simp
  next
    case False
    with t have "net_t s = s0" by (simp add: max_def)
    with False show ?thesis by simp
  qed
  then show ?thesis using tr ph by (simp add: hs_upto_def hs_full_trace_def)
qed

lemma phase_in_loop:
  assumes "hs_aligned s" and "range_ok s0 stop s" and "0 < hs_phase s"
  shows "net_t s \<le> stop"
proof (cases "env_t s = net_t s")
  case True
  with assms(3) have "0 < epos (env_pc s) \<or> 0 < npos (net_pc s)" by (simp add: hs_phase_def)
  then show ?thesis
  proof
    assume "0 < epos (env_pc s)"
    then have "env_in_loop (env_pc s)" by (cases "env_pc s") simp_all
    with assms(2) True show ?thesis by (simp add: range_ok_def)
  next
    assume "0 < npos (net_pc s)"
    then have "net_in_loop (net_pc s)" by (cases "net_pc s") simp_all
    with assms(2) show ?thesis by (simp add: range_ok_def)
  qed
next
  case False
  with assms(3) have "env_t s = net_t s + 1"
    by (simp add: hs_phase_def split: if_splits)
  with assms(2) show ?thesis by (simp add: range_ok_def max_def split: if_splits)
qed

lemma hs_upto_prefix:
  assumes "s0 \<le> t" and "t \<le> stop"
  shows "\<exists>rest. concat (map hs_block [s0..stop]) = hs_upto s0 t k @ rest"
proof -
  have "[s0..stop] = [s0..t - 1] @ t # [t + 1..stop]"
    using assms by (rule upto_split3)
  then have "concat (map hs_block [s0..stop])
      = hs_upto s0 t k @ (drop k (hs_block t) @ concat (map hs_block [t + 1..stop]))"
    by (simp add: hs_upto_def)
  then show ?thesis by blast
qed

lemma hs_upto_0_prefix:
  assumes "s0 \<le> t" and "t \<le> max s0 (stop + 1)"
  shows "\<exists>rest. concat (map hs_block [s0..stop]) = hs_upto s0 t 0 @ rest"
proof (cases "t \<le> stop")
  case True
  with assms(1) show ?thesis by (rule hs_upto_prefix)
next
  case False
  have "[s0..t - 1] = [s0..stop]"
  proof (cases "s0 \<le> stop + 1")
    case True
    with assms False have "t = stop + 1" by (simp add: max_def)
    then show ?thesis by simp
  next
    case F: False
    with assms have "t = s0" by (simp add: max_def)
    with F show ?thesis by simp
  qed
  then show ?thesis by (simp add: hs_upto_def)
qed

lemma hs_trace_prefix:
  assumes "hs_inv s0 stop s"
  shows "\<exists>rest. hs_full_trace s0 stop = trace s @ rest"
proof -
  from assms have tr: "trace s = main_prefix (main_pc s) @ hs_upto s0 (net_t s) (hs_phase s)"
    and al: "hs_aligned s" and th: "threads_ok s" and rg: "range_ok s0 stop s"
    by (simp_all add: hs_inv_def)
  show ?thesis
  proof (cases "env_pc s = EIdle")
    case True
    from env_idle_phase[OF al rg True] tr
    have "trace s = main_prefix (main_pc s)" by (simp add: hs_upto_0)
    moreover obtain r where "hs_prelude = main_prefix (main_pc s) @ r"
      by (cases "main_pc s") (simp_all add: hs_prelude_def)
    ultimately have "hs_full_trace s0 stop = trace s @ (r @ concat (map hs_block [s0..stop]))"
      unfolding hs_full_trace_def by simp
    then show ?thesis by blast
  next
    case False
    with th have "main_prefix (main_pc s) = hs_prelude"
      by (cases "main_pc s") (simp_all add: threads_ok_def)
    with tr have tr': "trace s = hs_prelude @ hs_upto s0 (net_t s) (hs_phase s)" by simp
    from rg have b: "s0 \<le> net_t s" "net_t s \<le> max s0 (stop + 1)" by (simp_all add: range_ok_def)
    have "\<exists>rest. concat (map hs_block [s0..stop]) = hs_upto s0 (net_t s) (hs_phase s) @ rest"
    proof (cases "hs_phase s = 0")
      case True
      with hs_upto_0_prefix[OF b] show ?thesis by simp
    next
      case False
      then have "net_t s \<le> stop" using phase_in_loop[OF al rg] by simp
      with b(1) show ?thesis by (rule hs_upto_prefix)
    qed
    with tr' show ?thesis by (auto simp add: hs_full_trace_def)
  qed
qed

lemma hs_preset_before_start:
  assumes "hs_inv s0 stop s" and "net_pc s \<noteq> NIdle \<or> env_pc s \<noteq> EIdle"
  shows "take 2 (trace s) = [PreClear ActChosen, PreSet TrainDone]"
proof -
  from assms have tr: "trace s = main_prefix (main_pc s) @ hs_upto s0 (net_t s) (hs_phase s)"
    and th: "threads_ok s"
    by (simp_all add: hs_inv_def)
  from th assms(2) have "\<exists>r. main_prefix (main_pc s) = [PreClear ActChosen, PreSet TrainDone] @ r"
    by (cases "main_pc s") (auto simp add: threads_ok_def hs_prelude_def)
  with tr show ?thesis by auto
qed

lemma hs_signal_when_clear:
  assumes "hs_inv s0 stop s"
  shows "(env_pc s = ESignal \<longrightarrow> \<not> act_chosen s) \<and> (net_pc s = NSignal \<longrightarrow> \<not> train_done s)"
proof -
  from assms have al: "hs_aligned s" and th: "threads_ok s" by (simp_all add: hs_inv_def)
  have "\<not> act_chosen s" if e: "env_pc s = ESignal"
  proof -
    from env_moves_main[OF th] e have "flags_ok s" by simp
    with al e show ?thesis by (simp add: hs_aligned_def flags_ok_def)
  qed
  moreover have "\<not> train_done s" if n: "net_pc s = NSignal"
  proof -
    from net_moves_main[OF th] n have "flags_ok s" by simp
    with n show ?thesis by (simp add: flags_ok_def)
  qed
  ultimately show ?thesis by blast
qed

lemma signalled_at_append: "signalled_at sg (xs @ ys) = signalled_at sg xs @ signalled_at sg ys"
  by (simp add: signalled_at_def)

lemma cleared_at_append: "cleared_at sg (xs @ ys) = cleared_at sg xs @ cleared_at sg ys"
  by (simp add: cleared_at_def)

lemma signalled_at_blocks:
  "signalled_at sg (concat (map hs_block ts)) = ts"
  by (induction ts) (cases sg; simp add: signalled_at_def hs_block_def)+

lemma cleared_at_blocks:
  "cleared_at sg (concat (map hs_block ts)) = ts"
  by (induction ts) (cases sg; simp add: cleared_at_def hs_block_def)+

lemma hs_full_trace_counts:
  "signalled_at sg (hs_full_trace s0 stop) = [s0..stop]"
  "cleared_at sg (hs_full_trace s0 stop) = [s0..stop]"
  by (simp_all add: hs_full_trace_def signalled_at_append cleared_at_append
        signalled_at_blocks cleared_at_blocks)
     (simp_all add: signalled_at_def cleared_at_def hs_prelude_def)

lemma env_pc_rank_mono: "env_pc_rank True pc \<le> env_pc_rank td pc"
  by (cases pc) simp_all

lemma net_pc_rank_mono: "net_pc_rank True pc \<le> net_pc_rank ac pc"
  by (cases pc) simp_all

lemma env_step_measure:
  assumes "range_ok s0 stop s" and "env_thread_step stop s = Some s'"
  shows "hs_measure stop s' < hs_measure stop s"
  using assms(2)
proof (cases rule: env_thread_stepE)
  case EReset
  with assms(1) show ?thesis
    by (simp add: hs_measure_def range_ok_def)
next
  case EForIn
  with assms(1) show ?thesis
    by (simp add: hs_measure_def range_ok_def)
next
  case EForOut
  with assms(1) show ?thesis
    by (simp add: hs_measure_def range_ok_def)
next
  case ESeen
  with assms(1) show ?thesis
    by (simp add: hs_measure_def range_ok_def)
next
  case EBlock
  with assms(1) show ?thesis
    by (simp add: hs_measure_def range_ok_def)
next
  case EWake
  with assms(1) show ?thesis
    by (simp add: hs_measure_def range_ok_def)
next
  case EClear
  with assms(1) show ?thesis
    by (simp add: hs_measure_def range_ok_def)
next
  case EChoose
  with assms(1) show ?thesis
    by (simp add: hs_measure_def range_ok_def)
next
  case ESignal
  with assms(1) net_pc_rank_mono[of "net_pc s" "act_chosen s"] show ?thesis
    by (simp add: hs_measure_def range_ok_def)
next
  case EAct
  with assms(1) have "env_t s \<le> stop" by (simp add: range_ok_def)
  then have "nat (stop + 1 - env_t s) = Suc (nat (stop - env_t s))" by linarith
  with EAct show ?thesis
    by (simp add: hs_measure_def)
qed

lemma net_step_measure:
  assumes "range_ok s0 stop s" and "net_thread_step stop s = Some s'"
  shows "hs_measure stop s' < hs_measure stop s"
  using assms(2)
proof (cases rule: net_thread_stepE)
  case NForIn
  with assms(1) show ?thesis
    by (simp add: hs_measure_def range_ok_def)
next
  case NForOut
  with assms(1) show ?thesis
    by (simp add: hs_measure_def range_ok_def)
next
  case NPrepare
  with assms(1) show ?thesis
    by (simp add: hs_measure_def range_ok_def)
next
  case NSeen
  with assms(1) show ?thesis
    by (simp add: hs_measure_def range_ok_def)
next
  case NBlock
  with assms(1) show ?thesis
    by (simp add: hs_measure_def range_ok_def)
next
  case NWake
  with assms(1) show ?thesis
    by (simp add: hs_measure_def range_ok_def)
next
  case NClear
  with assms(1) show ?thesis
    by (simp add: hs_measure_def range_ok_def)
next
  case NTrain
  with assms(1) show ?thesis
    by (simp add: hs_measure_def range_ok_def)
next
  case NSignal
  with assms(1) have "net_t s \<le> stop" by (simp add: range_ok_def)
  then have "nat (stop + 1 - net_t s) = Suc (nat (stop - net_t s))" by linarith
  with NSignal env_pc_rank_mono[of "env_pc s" "train_done s"] show ?thesis
    by (simp add: hs_measure_def)
qed

lemma main_step_measure:
  assumes "threads_ok s" and "main_step s = Some s'"
  shows "hs_measure stop s' < hs_measure stop s"
  using assms(2)
proof (cases rule: main_stepE)
  case MClear
  with assms(1) show ?thesis
    by (simp add: hs_measure_def threads_ok_def)
next
  case MSet
  with assms(1) show ?thesis
    by (simp add: hs_measure_def threads_ok_def)
next
  case MStartNet
  with assms(1) show ?thesis
    by (simp add: hs_measure_def threads_ok_def)
next
  case MStartEnv
  with assms(1) show ?thesis
    by (simp add: hs_measure_def threads_ok_def)
next
  case MJoinEnv
  with assms(1) show ?thesis
    by (simp add: hs_measure_def threads_ok_def)
next
  case MJoinNet
  with assms(1) show ?thesis
    by (simp add: hs_measure_def threads_ok_def)
qed

lemma hs_step_measure:
  assumes "hs_inv s0 stop s" and "hs_step stop th s = Some s'"
  shows "hs_measure stop s' < hs_measure stop s"
proof -
  from assms(1) have th: "threads_ok s" and rg: "range_ok s0 stop s"
    by (simp_all add: hs_inv_def)
  show ?thesis
  proof (cases th)
    case MainThread
    with assms(2) have "main_step s = Some s'" by simp
    with th show ?thesis by (rule main_step_measure)
  next
    case EnvThread
    with assms(2) have "env_thread_step stop s = Some s'" by simp
    with rg show ?thesis by (rule env_step_measure)
  next
    case NetThread
    with assms(2) have "net_thread_step stop s = Some s'" by simp
    with rg show ?thesis by (rule net_step_measure)
  qed
qed

lemma hs_run_length:
  assumes "hs_inv s0 stop s" and "hs_run stop sched s = Some s'"
  shows "length sched + hs_measure stop s' \<le> hs_measure stop s"
  using assms
proof (induction sched arbitrary: s)
  case Nil
  then show ?case by simp
next
  case (Cons th ths)
  from Cons.prems(2) obtain s1 where s1: "hs_step stop th s = Some s1"
    and r: "hs_run stop ths s1 = Some s'"
    by (cases "hs_step stop th s") simp_all
  from hs_inv_step[OF Cons.prems(1) s1] have i1: "hs_inv s0 stop s1" .
  from Cons.IH[OF i1 r] hs_step_measure[OF Cons.prems(1) s1] show ?case by simp
qed

lemma env_can_move:
  "env_pc s \<noteq> EIdle \<Longrightarrow> env_pc s \<noteq> EDone \<Longrightarrow> env_pc s = EWaitBlock \<longrightarrow> train_done s
   \<Longrightarrow> \<exists>s'. env_thread_step stop s = Some s'"
  by (cases "env_pc s") (simp_all add: env_thread_step_def)

lemma net_can_move:
  "net_pc s \<noteq> NIdle \<Longrightarrow> net_pc s \<noteq> NDone \<Longrightarrow> net_pc s = NWaitBlock \<longrightarrow> act_chosen s
   \<Longrightarrow> \<exists>s'. net_thread_step stop s = Some s'"
  by (cases "net_pc s") (simp_all add: net_thread_step_def)

lemma blocked_env_net_moves:
  assumes "hs_aligned s" and "flags_ok s" and "range_ok s0 stop s"
    and "env_pc s = EWaitBlock" and "\<not> train_done s" and "net_pc s \<noteq> NIdle"
  shows "net_pc s \<noteq> NDone \<and> (net_pc s = NWaitBlock \<longrightarrow> act_chosen s)"
proof -
  from assms(3,4) have e: "env_t s \<le> stop" by (simp add: range_ok_def)
  have "net_pc s \<noteq> NDone"
  proof
    assume d: "net_pc s = NDone"
    with assms(3) have "stop < net_t s" by (simp add: range_ok_def)
    with e assms(1,4) d show False by (simp add: hs_aligned_def)
  qed
  moreover have "act_chosen s" if "net_pc s = NWaitBlock"
    using assms(1,2,4,5) that by (simp add: hs_aligned_def flags_ok_def; elim conjE disjE; simp)
  ultimately show ?thesis by blast
qed

lemma done_env_net_moves:
  assumes "hs_aligned s" and "flags_ok s" and "range_ok s0 stop s"
    and "env_pc s = EDone" and "net_pc s = NWaitBlock"
  shows "act_chosen s"
proof -
  from assms(3,4,5) have "stop < env_t s" "net_t s \<le> stop" by (simp_all add: range_ok_def)
  with assms(1,2,4,5) show ?thesis
    by (simp add: hs_aligned_def flags_ok_def; elim conjE disjE; simp)
qed

lemma hs_no_deadlock:
  assumes "hs_inv s0 stop s" and "main_pc s \<noteq> MDone"
  shows "\<exists>th s'. hs_step stop th s = Some s'"
proof -
  from assms(1) have al: "hs_aligned s" and th: "threads_ok s" and rg: "range_ok s0 stop s"
    by (simp_all add: hs_inv_def)
  have main: "\<exists>th s'. hs_step stop th s = Some s'" if "\<exists>s'. main_step s = Some s'"
  proof -
    from that obtain s' where "hs_step stop MainThread s = Some s'" by auto
    then show ?thesis by blast
  qed
  have net: "\<exists>th s'. hs_step stop th s = Some s'"
    if "net_pc s \<noteq> NIdle" "net_pc s \<noteq> NDone" "net_pc s = NWaitBlock \<longrightarrow> act_chosen s"
  proof -
    from net_can_move[OF that, of stop] obtain s' where "hs_step stop NetThread s = Some s'"
      by auto
    then show ?thesis by blast
  qed
  have env: "\<exists>th s'. hs_step stop th s = Some s'"
    if "env_pc s \<noteq> EIdle" "env_pc s \<noteq> EDone" "env_pc s = EWaitBlock \<longrightarrow> train_done s"
  proof -
    from env_can_move[OF that, of stop] obtain s' where "hs_step stop EnvThread s = Some s'"
      by auto
    then show ?thesis by blast
  qed
  show ?thesis
  proof (cases "main_pc s")
    case MClear
    then show ?thesis by (intro main) (simp add: main_step_def)
  next
    case MSet
    then show ?thesis by (intro main) (simp add: main_step_def)
  next
    case MStartNet
    then show ?thesis by (intro main) (simp add: main_step_def)
  next
    case MStartEnv
    then show ?thesis by (intro main) (simp add: main_step_def)
  next
    case MJoinEnv
    with th have f: "flags_ok s" "net_pc s \<noteq> NIdle" "env_pc s \<noteq> EIdle"
      by (simp_all add: threads_ok_def)
    show ?thesis
    proof (cases "env_pc s = EDone")
      case True
      with MJoinEnv show ?thesis by (intro main) (simp add: main_step_def)
    next
      case False
      show ?thesis
      proof (cases "env_pc s = EWaitBlock \<and> \<not> train_done s")
        case True
        with blocked_env_net_moves[OF al f(1) rg _ _ f(2)]
        have "net_pc s \<noteq> NDone \<and> (net_pc s = NWaitBlock \<longrightarrow> act_chosen s)" by simp
        with f(2) show ?thesis by (intro net) simp_all
      next
        case F: False
        with False f(3) show ?thesis by (intro env) auto
      qed
    qed
  next
    case MJoinNet
    with th have f: "flags_ok s" "net_pc s \<noteq> NIdle" "env_pc s = EDone"
      by (simp_all add: threads_ok_def)
    show ?thesis
    proof (cases "net_pc s = NDone")
      case True
      with MJoinNet show ?thesis by (intro main) (simp add: main_step_def)
    next
      case False
      have "net_pc s = NWaitBlock \<longrightarrow> act_chosen s"
        using done_env_net_moves[OF al f(1) rg f(3)] by blast
      with False f(2) show ?thesis by (intro net) simp_all
    qed
  next
    case MDone
    with assms(2) show ?thesis by simp
  qed
qed

lemma hs_completes:
  assumes "hs_inv s0 stop s"
  shows "\<exists>sched s'. hs_run stop sched s = Some s' \<and> main_pc s' = MDone"
  using assms
proof (induction "hs_measure stop s" arbitrary: s rule: less_induct)
  case less
  show ?case
  proof (cases "main_pc s = MDone")
    case True
    then have "hs_run stop [] s = Some s \<and> main_pc s = MDone" by simp
    then show ?thesis by blast
  next
    case False
    from hs_no_deadlock[OF less.prems False] obtain th s1 where
      s1: "hs_step stop th s = Some s1" by blast
    from hs_inv_step[OF less.prems s1] have i1: "hs_inv s0 stop s1" .
    from hs_step_measure[OF less.prems s1] have "hs_measure stop s1 < hs_measure stop s" .
    from less.hyps[OF this i1] obtain sched s' where
      r: "hs_run stop sched s1 = Some s'" "main_pc s' = MDone" by blast
    from s1 r(1) have "hs_run stop (th # sched) s = Some s'" by simp
    with r(2) show ?thesis by blast
  qed
qed

lemma hs_measure_init: "hs_measure stop (hs_init ac td s0) = 26 + 24 * nat (stop + 1 - s0)"
  by (simp add: hs_measure_def hs_init_def)


text \<open>
  C2.  In every state that a run of \<open>train\<close> reaches, under any schedule of the three
  threads and whatever the two events held before:
  \<^item> once an executor thread has been started, the record of the run begins with
    \<open>train\<close> clearing \<open>act_chosen\<close> and setting \<open>train_done\<close>;
  \<^item> the record is an initial part of the one sequence in which, for each step \<open>t\<close> from
    \<open>start_step\<close> to \<open>stop_step\<close> in turn, \<open>train_done\<close> is seen set and then cleared by the
    environment executor, \<open>act_chosen\<close> is set by it, seen set and then cleared by the
    learning executor, and \<open>train_done\<close> is set by the learning executor;
  \<^item> an executor sets its signal only when that signal is not set: no second action
    choice or training step is signalled before the one before was acknowledged;
  \<^item> when \<open>train\<close> has returned, the record is that whole sequence: each of the two
    signals has been set by its executor at the steps \<open>start_step, ..., stop_step\<close>, once
    each, that is \<open>N = stop_step - start_step + 1\<close> times, and \<open>act_chosen\<close> cleared as often;
    \<open>train_done\<close>, set once more by the pre-set, was cleared \<open>N\<close> times and stays set;
  \<^item> the run can be completed from the state, and no run has more than \<open>26 + 24 N\<close>
    steps: the handshake neither deadlocks nor spins.
\<close>

theorem handshake_strictly_alternates:
  assumes "hs_run stop sched (hs_init ac td s0) = Some s"
  shows "(net_pc s \<noteq> NIdle \<or> env_pc s \<noteq> EIdle \<longrightarrow>
            take 2 (trace s) = [PreClear ActChosen, PreSet TrainDone])
       \<and> (\<exists>rest. hs_full_trace s0 stop = trace s @ rest)
       \<and> (env_pc s = ESignal \<longrightarrow> \<not> act_chosen s)
       \<and> (net_pc s = NSignal \<longrightarrow> \<not> train_done s)
       \<and> (main_pc s = MDone \<longrightarrow>
            trace s = hs_full_trace s0 stop
            \<and> signalled_at ActChosen (trace s) = [s0..stop]
            \<and> cleared_at ActChosen (trace s) = [s0..stop]
            \<and> signalled_at TrainDone (trace s) = [s0..stop]
            \<and> cleared_at TrainDone (trace s) = [s0..stop]
            \<and> length [s0..stop] = nat (stop - s0 + 1))
       \<and> (\<exists>sched' s'. hs_run stop sched' s = Some s' \<and> main_pc s' = MDone)
       \<and> length sched \<le> 26 + 24 * nat (stop + 1 - s0)"
proof -
  from assms have inv: "hs_inv s0 stop s" by (rule hs_inv_reachable)
  have 1: "net_pc s \<noteq> NIdle \<or> env_pc s \<noteq> EIdle \<longrightarrow>
            take 2 (trace s) = [PreClear ActChosen, PreSet TrainDone]"
    using hs_preset_before_start[OF inv] by blast
  have 2: "\<exists>rest. hs_full_trace s0 stop = trace s @ rest"
    using inv by (rule hs_trace_prefix)
  have 3: "(env_pc s = ESignal \<longrightarrow> \<not> act_chosen s) \<and> (net_pc s = NSignal \<longrightarrow> \<not> train_done s)"
    using inv by (rule hs_signal_when_clear)
  have 4: "main_pc s = MDone \<longrightarrow>
            trace s = hs_full_trace s0 stop
            \<and> signalled_at ActChosen (trace s) = [s0..stop]
            \<and> cleared_at ActChosen (trace s) = [s0..stop]
            \<and> signalled_at TrainDone (trace s) = [s0..stop]
            \<and> cleared_at TrainDone (trace s) = [s0..stop]
            \<and> length [s0..stop] = nat (stop - s0 + 1)"
    using hs_final_trace[OF inv] by (simp add: hs_full_trace_counts)
  have 5: "\<exists>sched' s'. hs_run stop sched' s = Some s' \<and> main_pc s' = MDone"
    using inv by (rule hs_completes)
  have "length sched \<le> hs_measure stop (hs_init ac td s0)"
    using hs_run_length[OF hs_inv_init assms] by simp
  then have 6: "length sched \<le> 26 + 24 * nat (stop + 1 - s0)"
    by (simp add: hs_measure_init)
  from 1 2 3 4 5 6 show ?thesis by blast
qed


lemma stub_run: "hs_run 2 stub_schedule (hs_init True False 1) = Some stub_final"
  by (simp add: stub_schedule_def stub_final_def hs_init_def main_step_def env_thread_step_def
                net_thread_step_def emit_def)

theorem handshake_strictly_alternates_witness:
  "hs_run 2 stub_schedule (hs_init True False 1) = Some stub_final
   \<and> main_pc stub_final = MDone
   \<and> trace stub_final = hs_full_trace 1 2
   \<and> signalled_at ActChosen (trace stub_final) = [1, 2]
   \<and> cleared_at ActChosen (trace stub_final) = [1, 2]
   \<and> signalled_at TrainDone (trace stub_final) = [1, 2]
   \<and> cleared_at TrainDone (trace stub_final) = [1, 2]"
proof -
  have r: "hs_run 2 stub_schedule (hs_init True False 1) = Some stub_final" by (rule stub_run)
  have m: "main_pc stub_final = MDone" by (simp add: stub_final_def)
  have u: "[1..2::int] = [1, 2]" by (simp add: upto.simps)
  from handshake_strictly_alternates[OF r] m
  have "trace stub_final = hs_full_trace 1 2
            \<and> signalled_at ActChosen (trace stub_final) = [1..2]
            \<and> cleared_at ActChosen (trace stub_final) = [1..2]
            \<and> signalled_at TrainDone (trace stub_final) = [1..2]
            \<and> cleared_at TrainDone (trace stub_final) = [1..2]"
    by blast
  with r m show ?thesis unfolding u by blast
qed

section \<open>Properties of \<open>build\<close>\<close>

lemma build_fresh:
  "model_dir a = [] \<Longrightarrow>
   build h a = Inr (a\<lparr>graph := built_graph h, start_step := Some 1, learn_started := Some False,
                     sess := Some \<lparr>t_tf = 1, params = init_params h, target = init_params h\<rparr>\<rparr>)"
  by (simp add: build_def)

text \<open>
  The restore branch on a checkpoint whose graph the build branch made: the increment
  operation was created under the name \<open>t_inc_op\<close> and is looked up as \<open>t_tf_inc\<close>, so the
  lookup raises, unless the model itself has an operation of that name.
\<close>

lemma build_restore_raises:
  assumes "model_dir a = ck # older" and "ck_graph ck = built_graph h"
    and "''t_tf_inc'' \<notin> set (model_build_ops h)"
  shows "build h a = Inl (KeyError ''t_tf_inc'')"
  using assms
  by (simp add: build_def Let_def bind_err_def get_tensor_by_name_def tensor_op_name_def
                get_operation_by_name_def built_graph_def)

text \<open>
  Where the restore branch does return, \<open>start_step\<close> is the persisted value of \<open>t_tf\<close>
  itself and \<open>learn_started\<close> is true.
\<close>

lemma build_restore_control:
  assumes "model_dir a = ck # older" and "build h a = Inr a'"
  shows "start_step a' = Some (t_tf (ck_vars ck)) \<and> learn_started a' = Some True
         \<and> sess a' = Some (ck_vars ck)"
  using assms
  by (auto simp add: build_def Let_def bind_err_def restore_control_def split: sum.splits)

text \<open>The timestep variable starts at 1 and \<open>t_inc_op\<close> adds one: after \<open>n\<close> runs it is \<open>1 + n\<close>.\<close>

lemma t_inc_funpow: "t_tf ((t_inc ^^ n) s) = t_tf s + int n"
  by (induction n) (simp_all add: t_inc_def)

lemma t_inc_100:
  "(t_inc ^^ 100) \<lparr>t_tf = 1, params = p, target = q\<rparr> = \<lparr>t_tf = 101, params = p, target = q\<rparr>"
proof -
  have "(t_inc ^^ n) \<lparr>t_tf = 1, params = p, target = q\<rparr>
          = \<lparr>t_tf = 1 + int n, params = p, target = q\<rparr>" for n
    by (induction n) (simp_all add: t_inc_def)
  from this[of 100] show ?thesis by simp
qed

text \<open>
  C3.  The stub agent is built in an empty \<open>model_dir\<close>; its graph holds the increment
  operation under the name \<open>t_inc_op\<close>.  \<open>_train_model\<close> then runs and saves a checkpoint
  with that graph.  \<open>build\<close> of a new agent on this \<open>model_dir\<close> takes the restore branch
  and raises \<open>KeyError\<close> for the name \<open>t_tf_inc\<close>: the handle of the increment operation is
  not resolved on a checkpoint that the program wrote itself.
\<close>

theorem restore_of_own_checkpoint_raises:
  "\<exists>a1 a2 ck. build stub_hooks (init_agent stub_config 0 (CHR ''t'') 0 []) = Inr a1
     \<and> graph a1 = [''train_op'', ''update_target'', ''a_train'', ''a_eval'',
                   ''t_tf'', ''t_inc_op'', ''Merge/MergeSummary'']
     \<and> train_model stub_hooks a1 = Inr a2
     \<and> model_dir a2 = [ck] \<and> ck_graph ck = graph a1
     \<and> build stub_hooks (init_agent stub_config 0 (CHR ''t'') 0 (model_dir a2))
         = Inl (KeyError ''t_tf_inc'')"
  apply (simp add: build_def init_agent_def built_graph_def stub_hooks_def)
  apply (simp add: train_model_def py_range_def stub_config_def upto.simps)
  apply (simp add: train_iter_def train_due_def save_due_def bind_err_def py_mod_is0_def py_mod_def
      record_ev_def train_step_def Let_def save_def get_tensor_by_name_def tensor_op_name_def
      get_operation_by_name_def)
  done

text \<open>
  C4.  The stub agent is built in an empty \<open>model_dir\<close> (\<open>t_tf\<close> is 1); the increment of
  \<open>_run_env\<close> has run 100 times and learning has started; \<open>save\<close> writes a checkpoint whose
  timestep counter is 101.  \<open>build\<close> of a new agent on this \<open>model_dir\<close> does not return an
  agent with \<open>start_step = 101\<close> and \<open>learn_started = True\<close>: it raises \<open>KeyError\<close> for the
  name \<open>t_tf_inc\<close> before the control variables are assigned.
\<close>

theorem restore_after_save_raises:
  "\<exists>a1 s1 a2 ck. build stub_hooks (init_agent stub_config 0 (CHR ''t'') 0 []) = Inr a1
     \<and> sess a1 = Some s1 \<and> t_tf s1 = 1
     \<and> save (a1\<lparr>sess := Some ((t_inc ^^ 100) s1), learn_started := Some True\<rparr>) = Inr a2
     \<and> model_dir a2 = [ck] \<and> t_tf (ck_vars ck) = 101
     \<and> build stub_hooks (init_agent stub_config 0 (CHR ''t'') 0 (model_dir a2))
         = Inl (KeyError ''t_tf_inc'')"
  by (simp add: build_def init_agent_def built_graph_def stub_hooks_def t_inc_100
      save_def record_ev_def Let_def bind_err_def get_tensor_by_name_def tensor_op_name_def
      get_operation_by_name_def)

section \<open>Properties of the DQN model\<close>

text \<open>
  C10.  \<open>build\<close> of the DQN model binds \<open>a_train\<close> to the argmax of the agent network and
  \<open>a_eval\<close> to the identity of \<open>a_train\<close>.  For every agent network (every value of the
  parameters) and every state, \<open>action_eval\<close> and \<open>action_train\<close> then return the same
  result: the same action, the index of the largest Q-value, when the state has the
  configured shape, and the same assertion failure otherwise.
\<close>

theorem dqn_eval_action_is_train_action:
  "\<exists>m'. dqn_build m = Inr m'
      \<and> a_train m' = Some (ArgMax AgentNet ''a_train'')
      \<and> a_eval m' = Some (Identity (ArgMax AgentNet ''a_train'') ''a_eval'')
      \<and> (\<forall>net state. action_eval m' net state = action_train m' net state)
      \<and> (\<forall>net d. action_eval m' net (obs_shape m, d) = Inr (argmax_row (net d)))"
  by (simp add: dqn_build_def act_train_def act_eval_def bind_err_def Let_def
                action_eval_def action_train_def run_action_def)

section \<open>Properties of the evaluation runner\<close>

lemma eval_steps_append: "eval_steps (xs @ ys) = eval_steps xs @ eval_steps ys"
  by (simp add: eval_steps_def)

lemma eval_range_eq: "eval_range c r = [eval_len c * r + 1..eval_len c * r + eval_len c]"
  by (simp add: eval_range_def py_range_def Let_def add.commute)

lemma agent_state_kept_refl: "agent_state_kept a a"
  by (simp add: agent_state_kept_def)

lemma agent_state_kept_trans:
  "agent_state_kept a b \<Longrightarrow> agent_state_kept b c \<Longrightarrow> agent_state_kept a c"
  by (simp add: agent_state_kept_def)

lemma reset_frame:
  assumes "reset h a = (a', obs)"
  shows "agent_state_kept a a' \<and> eval_runs a' = eval_runs a \<and> mon_mode a' = mon_mode a
     \<and> (\<exists>evs. events a' = events a @ evs \<and> set evs \<subseteq> {ModelReset, SubReset})"
  using assms
  by (cases "env_reset h (env a)"; cases "truthy (learn_started a)")
     (auto simp add: reset_def record_ev_def Let_def agent_state_kept_def)

lemma eval_iter_frame:
  assumes "sess a = Some s" and "log_freq (cfg a) \<noteq> 0" and "mon_mode a = CHR ''e''"
  shows "\<exists>a' obs' evs. eval_iter h (a, obs) t = Inr (a', obs')
           \<and> agent_state_kept a a' \<and> eval_runs a' = eval_runs a \<and> mon_mode a' = mon_mode a
           \<and> events a' = events a @ evs
           \<and> eval_steps evs = [t] \<and> (\<forall>e\<in>set evs. eval_loop_event e)"
proof -
  define action where "action = action_eval_hook h (params s) obs t"
  define a1 where "a1 = record_ev [ActionEval t] a"
  obtain e' next_obs rew dn where st: "env_step h (env a1) action = (e', next_obs, rew, dn)"
    by (cases "env_step h (env a1) action") auto
  define a2 where "a2 = a1\<lparr>env := e'\<rparr>"
  obtain a3 obs' where r: "(if dn then reset h a2 else (a2, next_obs)) = (a3, obs')"
    by (cases "if dn then reset h a2 else (a2, next_obs)") auto
  have k2: "agent_state_kept a a2" "eval_runs a2 = eval_runs a" "mon_mode a2 = mon_mode a"
    "events a2 = events a @ [ActionEval t]"
    by (simp_all add: a2_def a1_def record_ev_def agent_state_kept_def)
  obtain ev3 where k3: "agent_state_kept a2 a3" "eval_runs a3 = eval_runs a2"
    "mon_mode a3 = mon_mode a2" "events a3 = events a2 @ ev3"
    and e3: "set ev3 \<subseteq> {ModelReset, SubReset}"
  proof (cases dn)
    case True
    with r have "reset h a2 = (a3, obs')" by simp
    from reset_frame[OF this] that show ?thesis by blast
  next
    case False
    with r have "a3 = a2" by simp
    with that[of "[]"] show ?thesis by (simp add: agent_state_kept_refl)
  qed
  have c3: "cfg a3 = cfg a" using k2(1) k3(1) by (simp add: agent_state_kept_def)
  define due where "due = (t mod log_freq (cfg a) = 0)"
  define ev4 where "ev4 = (if due then [LogStats (CHR ''e'') t, TbEval t] else [])"
  define a4 where "a4 = record_ev ev4 a3"
  have lg: "py_mod_is0 t (log_freq (cfg a3)) = Inr due"
    using assms(2) c3 by (simp add: py_mod_is0_def py_mod_def due_def)
  have m3: "mon_mode a3 = CHR ''e''" using k3(3) k2(3) assms(3) by simp
  have a4': "(if due then record_ev [LogStats (mon_mode a3) t, TbEval t] a3 else a3) = a4"
    by (simp add: a4_def ev4_def m3 record_ev_def)
  have res: "eval_iter h (a, obs) t = Inr (a4, obs')"
    using assms(1) st r lg a4'
    by (cases dn)
       (simp_all add: eval_iter_def Let_def action_def[symmetric] a1_def[symmetric]
                  a2_def[symmetric] bind_err_def)
  have k4: "agent_state_kept a a4" "eval_runs a4 = eval_runs a" "mon_mode a4 = mon_mode a"
    using k2 k3 by (simp_all add: a4_def record_ev_def agent_state_kept_def)
  have ev: "events a4 = events a @ ([ActionEval t] @ ev3 @ ev4)"
    using k2(4) k3(4) by (simp add: a4_def record_ev_def)
  have "eval_steps ev3 = []"
    using e3 by (auto simp: eval_steps_def subset_iff)
  moreover have "eval_steps ev4 = []" "eval_steps [ActionEval t] = [t]"
    by (cases due; simp add: eval_steps_def ev4_def)+
  ultimately have es: "eval_steps ([ActionEval t] @ ev3 @ ev4) = [t]"
    by (simp only: eval_steps_append append_Nil2)
  have al: "\<forall>e\<in>set ([ActionEval t] @ ev3 @ ev4). eval_loop_event e"
    using e3 by (auto simp: ev4_def)
  from res k4 ev es al show ?thesis by blast
qed

lemma eval_loop_frame:
  assumes "sess a = Some s" and "log_freq (cfg a) \<noteq> 0" and "mon_mode a = CHR ''e''"
  shows "\<exists>a' obs' evs. for_each (eval_iter h) ts (a, obs) = Inr (a', obs')
           \<and> agent_state_kept a a' \<and> eval_runs a' = eval_runs a \<and> mon_mode a' = mon_mode a
           \<and> events a' = events a @ evs
           \<and> eval_steps evs = ts \<and> (\<forall>e\<in>set evs. eval_loop_event e)"
  using assms
proof (induction ts arbitrary: a obs s)
  case Nil
  then show ?case by (simp add: agent_state_kept_refl eval_steps_def)
next
  case (Cons t ts)
  from eval_iter_frame[OF Cons.prems, of h obs t] obtain a1 obs1 e1 where
    it: "eval_iter h (a, obs) t = Inr (a1, obs1)"
    and k1: "agent_state_kept a a1" "eval_runs a1 = eval_runs a" "mon_mode a1 = mon_mode a"
    and ev1: "events a1 = events a @ e1" "eval_steps e1 = [t]" "\<forall>e\<in>set e1. eval_loop_event e"
    by blast
  have p1: "sess a1 = Some s" "log_freq (cfg a1) \<noteq> 0" "mon_mode a1 = CHR ''e''"
    using k1 Cons.prems by (simp_all add: agent_state_kept_def)
  from Cons.IH[OF p1, of obs1] obtain a' obs' e2 where
    r: "for_each (eval_iter h) ts (a1, obs1) = Inr (a', obs')"
    and k2: "agent_state_kept a1 a'" "eval_runs a' = eval_runs a1" "mon_mode a' = mon_mode a1"
    and ev2: "events a' = events a1 @ e2" "eval_steps e2 = ts" "\<forall>e\<in>set e2. eval_loop_event e"
    by blast
  have "for_each (eval_iter h) (t # ts) (a, obs) = Inr (a', obs')" using it r by simp
  moreover have "agent_state_kept a a'" using k1(1) k2(1) by (rule agent_state_kept_trans)
  moreover have "eval_runs a' = eval_runs a" "mon_mode a' = mon_mode a" using k1 k2 by simp_all
  moreover have "events a' = events a @ (e1 @ e2)" using ev1(1) ev2(1) by simp
  moreover have "eval_steps (e1 @ e2) = t # ts" using ev1(2) ev2(2) by (simp add: eval_steps_append)
  moreover have "\<forall>e\<in>set (e1 @ e2). eval_loop_event e" using ev1(3) ev2(3) by auto
  ultimately show ?case by blast
qed

lemma eval_frame:
  assumes "sess a = Some s" and "log_freq (cfg a) \<noteq> 0"
  shows "\<exists>a' mid. eval h a = Inr a'
           \<and> agent_state_kept a a' \<and> eval_runs a' = eval_runs a + 1 \<and> mon_mode a' = CHR ''t''
           \<and> events a' = events a @ [MonitorMode (CHR ''e'')] @ mid @ [MonitorMode (CHR ''t'')]
           \<and> eval_steps mid = eval_range (cfg a) (eval_runs a + 1)
           \<and> (\<forall>e\<in>set mid. eval_loop_event e)"
proof -
  define a1 where "a1 = record_ev [MonitorMode (CHR ''e'')] (a\<lparr>mon_mode := CHR ''e''\<rparr>)"
  define a2 where "a2 = a1\<lparr>eval_runs := eval_runs a1 + 1\<rparr>"
  obtain e' obs where er: "env_reset h (env a2) = (e', obs)"
    by (cases "env_reset h (env a2)") auto
  define a3 where "a3 = a2\<lparr>env := e'\<rparr>"
  have k3: "agent_state_kept a a3" "eval_runs a3 = eval_runs a + 1" "mon_mode a3 = CHR ''e''"
    "events a3 = events a @ [MonitorMode (CHR ''e'')]" "cfg a2 = cfg a" "eval_runs a2 = eval_runs a + 1"
    by (simp_all add: a3_def a2_def a1_def record_ev_def agent_state_kept_def)
  have p3: "sess a3 = Some s" "log_freq (cfg a3) \<noteq> 0"
    using k3(1) assms by (simp_all add: agent_state_kept_def)
  from eval_loop_frame[OF p3 k3(3), of h "eval_range (cfg a) (eval_runs a + 1)" obs]
  obtain a4 obs' mid where
    lp: "for_each (eval_iter h) (eval_range (cfg a) (eval_runs a + 1)) (a3, obs) = Inr (a4, obs')"
    and k4: "agent_state_kept a3 a4" "eval_runs a4 = eval_runs a3" "mon_mode a4 = mon_mode a3"
    and ev4: "events a4 = events a3 @ mid" "eval_steps mid = eval_range (cfg a) (eval_runs a + 1)"
       "\<forall>e\<in>set mid. eval_loop_event e"
    by blast
  define a5 where "a5 = record_ev [MonitorMode (CHR ''t'')] (a4\<lparr>mon_mode := CHR ''t''\<rparr>)"
  have "eval h a = Inr a5"
    using er lp unfolding a5_def a3_def a2_def a1_def eval_def Let_def bind_err_def
    by (simp add: record_ev_def)
  moreover have "agent_state_kept a a5"
    using k3(1) k4(1) by (simp add: a5_def record_ev_def agent_state_kept_def)
  moreover have "eval_runs a5 = eval_runs a + 1" "mon_mode a5 = CHR ''t''"
    using k3(2) k4(2) by (simp_all add: a5_def record_ev_def)
  moreover have "events a5 = events a @ [MonitorMode (CHR ''e'')] @ mid @ [MonitorMode (CHR ''t'')]"
    using k3(4) ev4(1) by (simp add: a5_def record_ev_def)
  ultimately show ?thesis using ev4(2,3) by blast
qed


lemma eval_steps_monitor: "eval_steps ([MonitorMode m] @ mid @ [MonitorMode m']) = eval_steps mid"
  by (simp add: eval_steps_def)

lemma eval_calls_runs:
  assumes "sess a = Some s" and "log_freq (cfg a) \<noteq> 0"
  shows "\<exists>runs a'. eval_calls h n a = Inr (runs, a') \<and> length runs = n
           \<and> (\<forall>r<n. runs ! r = eval_range (cfg a) (eval_runs a + 1 + int r))
           \<and> eval_runs a' = eval_runs a + int n"
  using assms
proof (induction n arbitrary: a)
  case 0
  then show ?case by simp
next
  case (Suc n)
  from eval_frame[OF Suc.prems, of h] obtain a1 mid where
    e: "eval h a = Inr a1" and k: "agent_state_kept a a1" and er: "eval_runs a1 = eval_runs a + 1"
    and ev: "events a1 = events a @ [MonitorMode (CHR ''e'')] @ mid @ [MonitorMode (CHR ''t'')]"
    and st: "eval_steps mid = eval_range (cfg a) (eval_runs a + 1)"
    by blast
  have p1: "sess a1 = Some s" "log_freq (cfg a1) \<noteq> 0" and c1: "cfg a1 = cfg a"
    using k Suc.prems by (simp_all add: agent_state_kept_def)
  from Suc.IH[OF p1] obtain runs a' where
    r: "eval_calls h n a1 = Inr (runs, a')" "length runs = n"
       "\<forall>r<n. runs ! r = eval_range (cfg a1) (eval_runs a1 + 1 + int r)"
       "eval_runs a' = eval_runs a1 + int n"
    by blast
  have d: "eval_steps (drop (length (events a)) (events a1)) = eval_range (cfg a) (eval_runs a + 1)"
    unfolding ev using st eval_steps_monitor[of "CHR ''e''" mid "CHR ''t''"] by simp
  have "eval_calls h (Suc n) a = Inr (eval_range (cfg a) (eval_runs a + 1) # runs, a')"
    using e r(1) d by (simp add: bind_err_def)
  moreover have "\<forall>r<Suc n. (eval_range (cfg a) (eval_runs a + 1) # runs) ! r
                    = eval_range (cfg a) (eval_runs a + 1 + int r)"
  proof (intro allI impI)
    fix r assume "r < Suc n"
    show "(eval_range (cfg a) (eval_runs a + 1) # runs) ! r
                    = eval_range (cfg a) (eval_runs a + 1 + int r)"
    proof (cases r)
      case 0
      then show ?thesis by simp
    next
      case (Suc r')
      have "eval_runs a1 + 1 + int r' = eval_runs a + 1 + int r"
        using er Suc by simp
      moreover have "runs ! r' = eval_range (cfg a1) (eval_runs a1 + 1 + int r')"
        using \<open>r < Suc n\<close> Suc r(3) by simp
      ultimately show ?thesis using Suc c1 by (simp add: ac_simps)
    qed
  qed
  moreover have "eval_runs a' = eval_runs a + int (Suc n)" using r(4) er by simp
  ultimately show ?case using r(2) by simp
qed

lemma concat_eval_ranges:
  "concat (map (\<lambda>r. [L * int r + 1..L * int r + L]) [0..<n]) = [1..L * int n]"
proof (induction n)
  case 0
  then show ?case by simp
next
  case (Suc n)
  show ?case
  proof (cases "0 \<le> L")
    case True
    have n0: "0 \<le> L * int n" using True by simp
    have "[1..L * int n + L] = [1..L * int n] @ [L * int n + 1..L * int n + L]"
    proof (cases "L = 0")
      case True
      then show ?thesis by simp
    next
      case False
      with \<open>0 \<le> L\<close> have "1 \<le> L" by simp
      with n0 show ?thesis
        using upto_split1[of 1 "L * int n + 1" "L * int n + L"] by simp
    qed
    then show ?thesis using Suc by (simp add: distrib_left ac_simps)
  next
    case False
    then have L: "L < 0" by simp
    have "L * int n \<le> 0" using L by (simp add: mult_le_0_iff)
    moreover have "L * int n + L < 1" using L \<open>L * int n \<le> 0\<close> by simp
    ultimately show ?thesis using Suc L by (simp add: distrib_left)
  qed
qed

text \<open>
  C6.  Starting from the run counter \<open>-1\<close> of \<open>Agent.__init__\<close>, for a built agent with
  \<open>log_freq\<close> not zero, \<open>n\<close> successive calls of \<open>eval\<close> all return, and call \<open>r\<close> (counted from
  0) computes its evaluation actions exactly at the steps \<open>eval_len*r + 1\<close>, ...,
  \<open>eval_len*r + eval_len\<close>, in this order.  Put one after the other, the steps of the \<open>n\<close>
  calls are \<open>1, 2, ..., eval_len*n\<close>: consecutive calls neither overlap nor skip a step.
\<close>

theorem eval_runs_cover_consecutive_ranges:
  assumes "sess a = Some s" and "log_freq (cfg a) \<noteq> 0" and "eval_runs a = - 1"
  shows "\<exists>runs a'. eval_calls h n a = Inr (runs, a') \<and> length runs = n
           \<and> (\<forall>r<n. runs ! r =
                 [eval_len (cfg a) * int r + 1..eval_len (cfg a) * int r + eval_len (cfg a)])
           \<and> concat runs = [1..eval_len (cfg a) * int n]"
proof -
  from eval_calls_runs[OF assms(1,2), of h n] obtain runs a' where
    r: "eval_calls h n a = Inr (runs, a')" "length runs = n"
       "\<forall>r<n. runs ! r = eval_range (cfg a) (eval_runs a + 1 + int r)"
    by blast
  have nth: "\<forall>r<n. runs ! r =
                 [eval_len (cfg a) * int r + 1..eval_len (cfg a) * int r + eval_len (cfg a)]"
    using r(3) assms(3) by (simp add: eval_range_eq)
  have "runs = map (\<lambda>r. [eval_len (cfg a) * int r + 1..eval_len (cfg a) * int r + eval_len (cfg a)]) [0..<n]"
    using r(2) nth by (intro nth_equalityI) simp_all
  then have "concat runs = [1..eval_len (cfg a) * int n]"
    using concat_eval_ranges[of "eval_len (cfg a)" n] by simp
  with r(1,2) nth show ?thesis by blast
qed

theorem eval_runs_cover_consecutive_ranges_witness:
  "sess stub_agent = Some stub_session \<and> log_freq (cfg stub_agent) \<noteq> 0
   \<and> eval_runs stub_agent = - 1
   \<and> (\<exists>runs a'. eval_calls stub_hooks 2 stub_agent = Inr (runs, a')
          \<and> runs ! 0 = [1, 2, 3] \<and> runs ! 1 = [4, 5, 6] \<and> concat runs = [1, 2, 3, 4, 5, 6])"
proof -
  have h: "sess stub_agent = Some stub_session" "log_freq (cfg stub_agent) \<noteq> 0"
    "eval_runs stub_agent = - 1"
    by (simp_all add: stub_agent_def stub_config_def)
  from eval_runs_cover_consecutive_ranges[OF h, of stub_hooks 2] obtain runs a' where
    r: "eval_calls stub_hooks 2 stub_agent = Inr (runs, a')"
       "\<forall>r<2. runs ! r = [eval_len (cfg stub_agent) * int r + 1..
                            eval_len (cfg stub_agent) * int r + eval_len (cfg stub_agent)]"
       "concat runs = [1..eval_len (cfg stub_agent) * int 2]"
    by blast
  have "runs ! 0 = [1, 2, 3]"
    using r(2)[rule_format, of 0] by (simp add: stub_agent_def stub_config_def upto.simps)
  moreover have "runs ! 1 = [4, 5, 6]"
    using r(2)[rule_format, of 1] by (simp add: stub_agent_def stub_config_def upto.simps)
  moreover have "concat runs = [1, 2, 3, 4, 5, 6]"
    using r(3) by (simp add: stub_agent_def stub_config_def upto.simps)
  ultimately show ?thesis using h r(1) by blast
qed


lemma eval_iter_st_agrees: "eval_iter h ao t = as_result (eval_iter_st h ao t)"
proof -
  obtain a obs where ao: "ao = (a, obs)" by (cases ao)
  show ?thesis
  proof (cases "sess a")
    case None
    with ao show ?thesis by (simp add: eval_iter_def eval_iter_st_def as_result_def)
  next
    case (Some s)
    define a1 where "a1 = record_ev [ActionEval t] a"
    obtain e' next_obs rew dn where
      st: "env_step h (env a1) (action_eval_hook h (params s) obs t) = (e', next_obs, rew, dn)"
      by (cases "env_step h (env a1) (action_eval_hook h (params s) obs t)") auto
    obtain a3 obs' where r: "(if dn then reset h (a1\<lparr>env := e'\<rparr>) else (a1\<lparr>env := e'\<rparr>, next_obs)) = (a3, obs')"
      by (cases "if dn then reset h (a1\<lparr>env := e'\<rparr>) else (a1\<lparr>env := e'\<rparr>, next_obs)") auto
    show ?thesis
      using ao Some st r unfolding eval_iter_def eval_iter_st_def as_result_def Let_def a1_def bind_err_def
      by (cases dn; cases "py_mod_is0 t (log_freq (cfg a3))") simp_all
  qed
qed

lemma for_each_st_agrees:
  assumes "\<And>s t. body s t = as_result (body_st s t)"
  shows "for_each body ts s = as_result (for_each_st body_st ts s)"
proof (induction ts arbitrary: s)
  case Nil
  then show ?case by (simp add: as_result_def)
next
  case (Cons t ts)
  obtain s' r where b: "body_st s t = (s', r)" by (cases "body_st s t")
  show ?case
  proof (cases r)
    case None
    with b assms[of s t] Cons.IH[of s'] show ?thesis by (simp add: as_result_def)
  next
    case (Some e)
    with b assms[of s t] show ?thesis by (simp add: as_result_def)
  qed
qed

lemma eval_st_agrees: "eval h a = as_result (eval_st h a)"
proof -
  define a2 where "a2 = (record_ev [MonitorMode (CHR ''e'')] (a\<lparr>mon_mode := CHR ''e''\<rparr>))
                      \<lparr>eval_runs := eval_runs (record_ev [MonitorMode (CHR ''e'')] (a\<lparr>mon_mode := CHR ''e''\<rparr>)) + 1\<rparr>"
  obtain e' obs where er: "env_reset h (env a2) = (e', obs)" by (cases "env_reset h (env a2)")
  define steps where "steps = eval_range (cfg a2) (eval_runs a2)"
  obtain a4 obs' r where l: "for_each_st (eval_iter_st h) steps (a2\<lparr>env := e'\<rparr>, obs) = ((a4, obs'), r)"
    by (cases "for_each_st (eval_iter_st h) steps (a2\<lparr>env := e'\<rparr>, obs)") auto
  have f: "for_each (eval_iter h) steps (a2\<lparr>env := e'\<rparr>, obs)
             = as_result (for_each_st (eval_iter_st h) steps (a2\<lparr>env := e'\<rparr>, obs))"
    by (rule for_each_st_agrees) (rule eval_iter_st_agrees)
  show ?thesis
    using er l f unfolding eval_def eval_st_def Let_def a2_def steps_def bind_err_def as_result_def
    by (cases r) simp_all
qed

lemma eval_range_Nil_iff: "eval_range c r = [] \<longleftrightarrow> eval_len c \<le> 0"
  by (simp add: eval_range_eq)

lemma eval_iter_st_frame:
  assumes "sess a = Some s" and "mon_mode a = CHR ''e''"
  shows "\<exists>a' obs' r evs. eval_iter_st h (a, obs) t = ((a', obs'), r)
           \<and> agent_state_kept a a' \<and> eval_runs a' = eval_runs a \<and> mon_mode a' = mon_mode a
           \<and> events a' = events a @ evs \<and> (\<forall>e\<in>set evs. eval_loop_event e)
           \<and> (r = None \<longleftrightarrow> log_freq (cfg a) \<noteq> 0)
           \<and> (r = None \<or> r = Some ZeroDivisionError)"
proof -
  define action where "action = action_eval_hook h (params s) obs t"
  define a1 where "a1 = record_ev [ActionEval t] a"
  obtain e' next_obs rew dn where st: "env_step h (env a1) action = (e', next_obs, rew, dn)"
    by (cases "env_step h (env a1) action") auto
  define a2 where "a2 = a1\<lparr>env := e'\<rparr>"
  obtain a3 obs' where r: "(if dn then reset h a2 else (a2, next_obs)) = (a3, obs')"
    by (cases "if dn then reset h a2 else (a2, next_obs)") auto
  have k2: "agent_state_kept a a2" "eval_runs a2 = eval_runs a" "mon_mode a2 = mon_mode a"
    "events a2 = events a @ [ActionEval t]"
    by (simp_all add: a2_def a1_def record_ev_def agent_state_kept_def)
  obtain ev3 where k3: "agent_state_kept a2 a3" "eval_runs a3 = eval_runs a2"
    "mon_mode a3 = mon_mode a2" "events a3 = events a2 @ ev3"
    and e3: "set ev3 \<subseteq> {ModelReset, SubReset}"
  proof (cases dn)
    case True
    with r have "reset h a2 = (a3, obs')" by simp
    from reset_frame[OF this] that show ?thesis by blast
  next
    case False
    with r have "a3 = a2" by simp
    with that[of "[]"] show ?thesis by (simp add: agent_state_kept_refl)
  qed
  have c3: "cfg a3 = cfg a" using k2(1) k3(1) by (simp add: agent_state_kept_def)
  have m3: "mon_mode a3 = CHR ''e''" using k3(3) k2(3) assms(2) by simp
  have k3a: "agent_state_kept a a3" using k2(1) k3(1) by (rule agent_state_kept_trans)
  have ev3a: "events a3 = events a @ ([ActionEval t] @ ev3)" using k2(4) k3(4) by simp
  have al3: "\<forall>e\<in>set ([ActionEval t] @ ev3). eval_loop_event e" using e3 by auto
  show ?thesis
  proof (cases "log_freq (cfg a) = 0")
    case True
    then have lg: "py_mod_is0 t (log_freq (cfg a3)) = Inl ZeroDivisionError"
      using c3 by (simp add: py_mod_is0_def py_mod_def)
    have res: "eval_iter_st h (a, obs) t = ((a3, obs'), Some ZeroDivisionError)"
      using assms(1) st r lg
      unfolding eval_iter_st_def Let_def action_def a2_def a1_def
      by (cases dn) simp_all
    from res k3a k3(2) k2(2) k3(3) k2(3) ev3a al3 True show ?thesis by auto
  next
    case False
    define due where "due = (t mod log_freq (cfg a) = 0)"
    define ev4 where "ev4 = (if due then [LogStats (CHR ''e'') t, TbEval t] else [])"
    define a4 where "a4 = record_ev ev4 a3"
    have lg: "py_mod_is0 t (log_freq (cfg a3)) = Inr due"
      using False c3 by (simp add: py_mod_is0_def py_mod_def due_def)
    have a4': "(if due then record_ev [LogStats (mon_mode a3) t, TbEval t] a3 else a3) = a4"
      by (simp add: a4_def ev4_def m3 record_ev_def)
    have res: "eval_iter_st h (a, obs) t = ((a4, obs'), None)"
      using assms(1) st r lg a4'
      unfolding eval_iter_st_def Let_def action_def a2_def a1_def
      by (cases dn) simp_all
    have k4: "agent_state_kept a a4" "eval_runs a4 = eval_runs a" "mon_mode a4 = mon_mode a"
      using k2 k3 by (simp_all add: a4_def record_ev_def agent_state_kept_def)
    have ev: "events a4 = events a @ ([ActionEval t] @ ev3 @ ev4)"
      using k2(4) k3(4) by (simp add: a4_def record_ev_def)
    have al: "\<forall>e\<in>set ([ActionEval t] @ ev3 @ ev4). eval_loop_event e"
      using e3 by (auto simp: ev4_def)
    from res k4 ev al False show ?thesis by auto
  qed
qed

lemma eval_loop_st_frame:
  assumes "sess a = Some s" and "mon_mode a = CHR ''e''"
  shows "\<exists>a' obs' r evs. for_each_st (eval_iter_st h) ts (a, obs) = ((a', obs'), r)
           \<and> agent_state_kept a a' \<and> eval_runs a' = eval_runs a \<and> mon_mode a' = mon_mode a
           \<and> events a' = events a @ evs \<and> (\<forall>e\<in>set evs. eval_loop_event e)
           \<and> (r = None \<longleftrightarrow> log_freq (cfg a) \<noteq> 0 \<or> ts = [])
           \<and> (r = None \<or> r = Some ZeroDivisionError)"
  using assms
proof (induction ts arbitrary: a obs)
  case Nil
  then show ?case by (simp add: agent_state_kept_refl)
next
  case (Cons t ts)
  from eval_iter_st_frame[OF Cons.prems, of h obs t] obtain a1 obs1 r1 e1 where
    it: "eval_iter_st h (a, obs) t = ((a1, obs1), r1)"
    and k1: "agent_state_kept a a1" "eval_runs a1 = eval_runs a" "mon_mode a1 = mon_mode a"
    and ev1: "events a1 = events a @ e1" "\<forall>e\<in>set e1. eval_loop_event e"
    and r1: "r1 = None \<longleftrightarrow> log_freq (cfg a) \<noteq> 0" "r1 = None \<or> r1 = Some ZeroDivisionError"
    by blast
  show ?case
  proof (cases r1)
    case (Some e)
    with it have "for_each_st (eval_iter_st h) (t # ts) (a, obs) = ((a1, obs1), r1)" by simp
    with k1 ev1 r1 Some show ?thesis by auto
  next
    case None
    have p1: "sess a1 = Some s" "mon_mode a1 = CHR ''e''" and c1: "cfg a1 = cfg a"
      using k1 Cons.prems by (simp_all add: agent_state_kept_def)
    from Cons.IH[OF p1, of obs1] obtain a' obs' r e2 where
      lp: "for_each_st (eval_iter_st h) ts (a1, obs1) = ((a', obs'), r)"
      and k2: "agent_state_kept a1 a'" "eval_runs a' = eval_runs a1" "mon_mode a' = mon_mode a1"
      and ev2: "events a' = events a1 @ e2" "\<forall>e\<in>set e2. eval_loop_event e"
      and r2: "r = None \<longleftrightarrow> log_freq (cfg a1) \<noteq> 0 \<or> ts = []" "r = None \<or> r = Some ZeroDivisionError"
      by blast
    have "for_each_st (eval_iter_st h) (t # ts) (a, obs) = ((a', obs'), r)"
      using it None lp by simp
    moreover have "agent_state_kept a a'" using k1(1) k2(1) by (rule agent_state_kept_trans)
    moreover have "eval_runs a' = eval_runs a" "mon_mode a' = mon_mode a" using k1 k2 by simp_all
    moreover have "events a' = events a @ (e1 @ e2)" using ev1(1) ev2(1) by simp
    moreover have "\<forall>e\<in>set (e1 @ e2). eval_loop_event e" using ev1(2) ev2(2) by auto
    moreover have "r = None \<longleftrightarrow> log_freq (cfg a) \<noteq> 0 \<or> t # ts = []"
      using r2(1) r1(1) None c1 by simp
    ultimately show ?thesis using r2(2) by blast
  qed
qed

lemma eval_st_frame:
  assumes "sess a = Some s"
  shows "\<exists>a' r mid. eval_st h a = (a', r)
           \<and> (r = None \<longleftrightarrow> \<not> (log_freq (cfg a) = 0 \<and> 0 < eval_len (cfg a)))
           \<and> (r = None \<or> r = Some ZeroDivisionError)
           \<and> agent_state_kept a a' \<and> eval_runs a' = eval_runs a + 1
           \<and> mon_mode a' = (if r = None then CHR ''t'' else CHR ''e'')
           \<and> events a' = events a @ [MonitorMode (CHR ''e'')] @ mid
                          @ (if r = None then [MonitorMode (CHR ''t'')] else [])
           \<and> (\<forall>e\<in>set mid. eval_loop_event e)"
proof -
  define a1 where "a1 = record_ev [MonitorMode (CHR ''e'')] (a\<lparr>mon_mode := CHR ''e''\<rparr>)"
  define a2 where "a2 = a1\<lparr>eval_runs := eval_runs a1 + 1\<rparr>"
  obtain e' obs where er: "env_reset h (env a2) = (e', obs)"
    by (cases "env_reset h (env a2)") auto
  define a3 where "a3 = a2\<lparr>env := e'\<rparr>"
  define steps where "steps = eval_range (cfg a2) (eval_runs a2)"
  have k3: "agent_state_kept a a3" "eval_runs a3 = eval_runs a + 1" "mon_mode a3 = CHR ''e''"
    "events a3 = events a @ [MonitorMode (CHR ''e'')]" "cfg a3 = cfg a"
    by (simp_all add: a3_def a2_def a1_def record_ev_def agent_state_kept_def)
  have sn: "steps = [] \<longleftrightarrow> eval_len (cfg a) \<le> 0"
    by (simp add: steps_def eval_range_Nil_iff a2_def a1_def record_ev_def)
  have p3: "sess a3 = Some s" using k3(1) assms by (simp add: agent_state_kept_def)
  from eval_loop_st_frame[OF p3 k3(3), of h steps obs]
  obtain a4 obs' r mid where
    lp: "for_each_st (eval_iter_st h) steps (a3, obs) = ((a4, obs'), r)"
    and k4: "agent_state_kept a3 a4" "eval_runs a4 = eval_runs a3" "mon_mode a4 = mon_mode a3"
    and ev4: "events a4 = events a3 @ mid" "\<forall>e\<in>set mid. eval_loop_event e"
    and r4: "r = None \<longleftrightarrow> log_freq (cfg a3) \<noteq> 0 \<or> steps = []" "r = None \<or> r = Some ZeroDivisionError"
    by blast
  have rr: "r = None \<longleftrightarrow> \<not> (log_freq (cfg a) = 0 \<and> 0 < eval_len (cfg a))"
    using r4(1) sn k3(5) by auto
  have ka: "agent_state_kept a a4" using k3(1) k4(1) by (rule agent_state_kept_trans)
  show ?thesis
  proof (cases r)
    case None
    define a5 where "a5 = record_ev [MonitorMode (CHR ''t'')] (a4\<lparr>mon_mode := CHR ''t''\<rparr>)"
    have "eval_st h a = (a5, None)"
      using er lp None unfolding a5_def steps_def a3_def a2_def a1_def eval_st_def Let_def
      by (simp add: record_ev_def)
    moreover have "agent_state_kept a a5"
      using ka by (simp add: a5_def record_ev_def agent_state_kept_def)
    moreover have "eval_runs a5 = eval_runs a + 1" "mon_mode a5 = CHR ''t''"
      using k3(2) k4(2) by (simp_all add: a5_def record_ev_def)
    moreover have "events a5 = events a @ [MonitorMode (CHR ''e'')] @ mid @ [MonitorMode (CHR ''t'')]"
      using k3(4) ev4(1) by (simp add: a5_def record_ev_def)
    ultimately show ?thesis using ev4(2) rr None by auto
  next
    case (Some e)
    have "eval_st h a = (a4, r)"
      using er lp Some unfolding steps_def a3_def a2_def a1_def eval_st_def Let_def
      by (simp add: record_ev_def)
    moreover have "eval_runs a4 = eval_runs a + 1" "mon_mode a4 = CHR ''e''"
      using k3(2,3) k4(2,3) by simp_all
    moreover have "events a4 = events a @ [MonitorMode (CHR ''e'')] @ mid"
      using k3(4) ev4(1) by simp
    ultimately show ?thesis using ka ev4(2) rr r4(2) Some by auto
  qed
qed


text \<open>
  The frame of \<open>eval\<close> does not extend to everything the agent holds.  On the agent that
  has started learning and evaluates for six steps, \<open>eval\<close> returns with the environment
  in another state than before (it was reset and stepped) and with the episode state
  cleared by the reset hooks, which \<open>reset\<close> ran when an episode ended during the
  evaluation.
\<close>

theorem eval_changes_environment_and_episode_state:
  "env episode_agent = 0 \<and> map_sum id env (eval stub_hooks episode_agent) = Inr 1
   \<and> sub episode_agent = 9 \<and> map_sum id sub (eval stub_hooks episode_agent) = Inr 0"
  by (simp add: episode_agent_def stub_agent_def stub_config_def stub_hooks_def stub_session_def
        eval_def eval_range_def py_range_def upto.simps Let_def bind_err_def eval_iter_def
        record_ev_def reset_def py_mod_is0_def py_mod_def)


text \<open>
  C8, amended.  For a built agent, \<open>eval\<close> makes no call but evaluation actions, the reset
  hooks and logging in evaluation mode between putting the monitor in evaluation mode
  and, on normal return, putting it back in training mode: it runs no training
  operation, target update or increment of the timestep variable, stores nothing in the
  replay buffer and saves nothing.  In the state it leaves, the session variables (model
  parameters, target parameters, timestep counter), the replay buffer, the
  configuration, \<open>start_step\<close>, \<open>learn_started\<close>, the last summary and what is on disk are as
  before, and the run counter is one higher.  It returns normally unless \<open>log_freq\<close> is zero
  and \<open>eval_len\<close> positive; then the loop raises \<open>ZeroDivisionError\<close> and the monitor is left
  in evaluation mode.  The state of the environment and the episode state of the reset
  hooks are not kept.  The hooks stand for \<open>_action_eval\<close>, \<open>model.reset\<close> and \<open>_reset\<close> as the
  spec describes them: the first reads the parameters, the other two act on episode
  state only, as \<open>BaseDQN.reset\<close> (\<open>pass\<close>) does.
\<close>

theorem eval_frame_apart_from_collaborators:
  assumes "sess a = Some s"
  shows "\<exists>a' r mid. eval_st h a = (a', r) \<and> eval h a = as_result (a', r)
           \<and> (r = None \<longleftrightarrow> \<not> (log_freq (cfg a) = 0 \<and> 0 < eval_len (cfg a)))
           \<and> (r = None \<or> r = Some ZeroDivisionError)
           \<and> sess a' = Some s \<and> replay_buf a' = replay_buf a \<and> agent_state_kept a a'
           \<and> eval_runs a' = eval_runs a + 1
           \<and> mon_mode a' = (if r = None then CHR ''t'' else CHR ''e'')
           \<and> events a' = events a @ [MonitorMode (CHR ''e'')] @ mid
                          @ (if r = None then [MonitorMode (CHR ''t'')] else [])
           \<and> (\<forall>e\<in>set mid. eval_loop_event e)"
proof -
  from eval_st_frame[OF assms, of h] obtain a' r mid where
    f: "eval_st h a = (a', r)"
       "r = None \<longleftrightarrow> \<not> (log_freq (cfg a) = 0 \<and> 0 < eval_len (cfg a))"
       "r = None \<or> r = Some ZeroDivisionError"
       "agent_state_kept a a'" "eval_runs a' = eval_runs a + 1"
       "mon_mode a' = (if r = None then CHR ''t'' else CHR ''e'')"
       "events a' = events a @ [MonitorMode (CHR ''e'')] @ mid
                          @ (if r = None then [MonitorMode (CHR ''t'')] else [])"
       "\<forall>e\<in>set mid. eval_loop_event e"
    by blast
  have "eval h a = as_result (a', r)" using eval_st_agrees[of h a] f(1) by simp
  moreover have "sess a' = Some s" "replay_buf a' = replay_buf a"
    using f(4) assms by (simp_all add: agent_state_kept_def)
  ultimately show ?thesis using f by blast
qed

theorem eval_frame_apart_from_collaborators_witness:
  "sess episode_agent = Some stub_session
   \<and> (\<exists>a'. eval stub_hooks episode_agent = Inr a' \<and> sess a' = Some stub_session
          \<and> replay_buf a' = [] \<and> learn_started a' = Some True \<and> start_step a' = Some 1
          \<and> eval_runs a' = 0 \<and> mon_mode a' = CHR ''t'')
   \<and> sess raising_agent = Some stub_session
   \<and> eval stub_hooks raising_agent = Inl ZeroDivisionError
   \<and> mon_mode (fst (eval_st stub_hooks raising_agent)) = CHR ''e''
   \<and> sess (fst (eval_st stub_hooks raising_agent)) = Some stub_session"
proof -
  have h1: "sess episode_agent = Some stub_session"
    by (simp add: episode_agent_def stub_agent_def)
  have c1: "\<not> (log_freq (cfg episode_agent) = 0 \<and> 0 < eval_len (cfg episode_agent))"
    by (simp add: episode_agent_def stub_agent_def stub_config_def)
  from eval_frame_apart_from_collaborators[OF h1, of stub_hooks] c1 obtain a' where
    r: "eval stub_hooks episode_agent = as_result (a', None)" "sess a' = Some stub_session"
       "replay_buf a' = replay_buf episode_agent" "agent_state_kept episode_agent a'"
       "eval_runs a' = eval_runs episode_agent + 1" "mon_mode a' = CHR ''t''"
    by auto
  have n: "eval stub_hooks episode_agent = Inr a'" using r(1) by (simp add: as_result_def)
  have "replay_buf a' = []" "learn_started a' = Some True" "start_step a' = Some 1"
    "eval_runs a' = 0"
    using r(3,4,5) by (simp_all add: agent_state_kept_def episode_agent_def stub_agent_def)
  with n r(2,6) have p1: "\<exists>a'. eval stub_hooks episode_agent = Inr a' \<and> sess a' = Some stub_session
          \<and> replay_buf a' = [] \<and> learn_started a' = Some True \<and> start_step a' = Some 1
          \<and> eval_runs a' = 0 \<and> mon_mode a' = CHR ''t''"
    by blast
  have h2: "sess raising_agent = Some stub_session"
    by (simp add: raising_agent_def stub_agent_def)
  have c2: "log_freq (cfg raising_agent) = 0 \<and> 0 < eval_len (cfg raising_agent)"
    by (simp add: raising_agent_def stub_agent_def stub_config_def)
  from eval_frame_apart_from_collaborators[OF h2, of stub_hooks] c2 obtain b' where
    q: "eval_st stub_hooks raising_agent = (b', Some ZeroDivisionError)"
       "eval stub_hooks raising_agent = as_result (b', Some ZeroDivisionError)"
       "sess b' = Some stub_session" "mon_mode b' = CHR ''e''"
    by auto
  have "eval stub_hooks raising_agent = Inl ZeroDivisionError"
    using q(2) by (simp add: as_result_def)
  moreover have "mon_mode (fst (eval_st stub_hooks raising_agent)) = CHR ''e''"
    "sess (fst (eval_st stub_hooks raising_agent)) = Some stub_session"
    using q(1,3,4) by simp_all
  ultimately show ?thesis using h1 p1 h2 by blast
qed

section \<open>Properties of the environment executor\<close>

lemma eval_called_at_append: "eval_called_at (xs @ ys) = eval_called_at xs @ eval_called_at ys"
  by (simp add: eval_called_at_def)

lemma eval_called_at_Nil_iff: "eval_called_at evs = [] \<longleftrightarrow> (\<forall>t. EvalCall t \<notin> set evs)"
proof (induction evs)
  case Nil
  then show ?case by (simp add: eval_called_at_def)
next
  case (Cons e evs)
  then show ?case by (cases e) (auto simp: eval_called_at_def)
qed

lemma log_stats_frame:
  assumes "log_freq (cfg a) \<noteq> 0"
  shows "\<exists>a' evs. log_stats a t = Inr a' \<and> agent_state_kept a a' \<and> eval_runs a' = eval_runs a
           \<and> events a' = events a @ evs \<and> (\<forall>u. EvalCall u \<notin> set evs)"
  using assms
  by (simp add: log_stats_def bind_err_def py_mod_is0_def py_mod_def record_ev_def
                agent_state_kept_def)

lemma choose_action_frame:
  assumes "sess a = Some s"
  shows "\<exists>a' act e. choose_action h a obs t = Inr (a', act) \<and> agent_state_kept a a'
           \<and> eval_runs a' = eval_runs a \<and> events a' = events a @ [e]
           \<and> (e = ActionTrain t \<or> e = ActionSample t)"
proof (cases "truthy (learn_started a)")
  case True
  obtain x' act where "action_train_hook h (sub a) (params s) obs t = (x', act)"
    by (cases "action_train_hook h (sub a) (params s) obs t") auto
  with True assms show ?thesis
    by (simp add: choose_action_def record_ev_def agent_state_kept_def)
next
  case False
  obtain e' act where "env_sample h (env a) = (e', act)"
    by (cases "env_sample h (env a)") auto
  with False show ?thesis
    by (simp add: choose_action_def record_ev_def agent_state_kept_def)
qed

lemma act_and_store_frame:
  assumes "sess a = Some s" and "log_freq (cfg a) \<noteq> 0"
  shows "\<exists>a' obs' evs. act_and_store h a obs action t = Inr (a', obs')
           \<and> cfg a' = cfg a \<and> start_step a' = start_step a \<and> sess a' = Some (t_inc s)
           \<and> eval_runs a' = eval_runs a
           \<and> events a' = events a @ evs \<and> (\<forall>u. EvalCall u \<notin> set evs)"
proof -
  define a1 where "a1 = record_ev [TInc t] (a\<lparr>sess := Some (t_inc s)\<rparr>)"
  obtain e' next_obs rew dn where st: "env_step h (env a1) action = (e', next_obs, rew, dn)"
    by (cases "env_step h (env a1) action") auto
  define a2 where "a2 = a1\<lparr>env := e'\<rparr>"
  define a3 where "a3 = record_ev [ReplayStore t]
                      (a2\<lparr>replay_buf := replay_buf a2 @ [(obs, action, rew, dn)]\<rparr>)"
  obtain a4 obs' where r: "(if dn then reset h a3 else (a3, next_obs)) = (a4, obs')"
    by (cases "if dn then reset h a3 else (a3, next_obs)") auto
  have k3: "cfg a3 = cfg a" "start_step a3 = start_step a" "sess a3 = Some (t_inc s)"
    "eval_runs a3 = eval_runs a" "events a3 = events a @ [TInc t, ReplayStore t]"
    by (simp_all add: a3_def a2_def a1_def record_ev_def)
  obtain ev4 where k4: "agent_state_kept a3 a4" "eval_runs a4 = eval_runs a3"
    "events a4 = events a3 @ ev4" and e4: "set ev4 \<subseteq> {ModelReset, SubReset}"
  proof (cases dn)
    case True
    with r have "reset h a3 = (a4, obs')" by simp
    from reset_frame[OF this] that show ?thesis by blast
  next
    case False
    with r have "a4 = a3" by simp
    with that[of "[]"] show ?thesis by (simp add: agent_state_kept_refl)
  qed
  have c4: "log_freq (cfg a4) \<noteq> 0"
    using k4(1) k3(1) assms(2) by (simp add: agent_state_kept_def)
  from log_stats_frame[OF c4, of t] obtain a5 ev5 where
    l: "log_stats a4 t = Inr a5" and k5: "agent_state_kept a4 a5" "eval_runs a5 = eval_runs a4"
    "events a5 = events a4 @ ev5" "\<forall>u. EvalCall u \<notin> set ev5"
    by blast
  have res: "act_and_store h a obs action t = Inr (a5, obs')"
    using assms(1) st r l
    unfolding act_and_store_def Let_def a3_def a2_def a1_def bind_err_def
    by (cases dn) simp_all
  moreover have "cfg a5 = cfg a" "start_step a5 = start_step a" "sess a5 = Some (t_inc s)"
    "eval_runs a5 = eval_runs a"
    using k3 k4 k5 by (simp_all add: agent_state_kept_def)
  moreover have "events a5 = events a @ ([TInc t, ReplayStore t] @ ev4 @ ev5)"
    using k3(5) k4(3) k5(3) by simp
  moreover have "\<forall>u. EvalCall u \<notin> set ([TInc t, ReplayStore t] @ ev4 @ ev5)"
    using e4 k5(4) by auto
  ultimately show ?thesis by blast
qed

lemma eval_due_disabled: "eval_len c \<le> 0 \<Longrightarrow> eval_due c t = Inr False"
  by (simp add: eval_due_def)

lemma run_env_iter_no_eval:
  assumes "eval_len (cfg a) \<le> 0" and "sess a = Some s" and "log_freq (cfg a) \<noteq> 0"
  shows "\<exists>a' obs' evs. run_env_iter h (a, obs) t = Inr (a', obs')
           \<and> cfg a' = cfg a \<and> start_step a' = start_step a \<and> sess a' = Some (t_inc s)
           \<and> eval_runs a' = eval_runs a
           \<and> events a' = events a @ evs \<and> (\<forall>u. EvalCall u \<notin> set evs)"
proof -
  define a0 where "a0 = record_ev [WaitTrainDone t] a"
  have k0: "cfg a0 = cfg a" "start_step a0 = start_step a" "sess a0 = Some s"
    "eval_runs a0 = eval_runs a" "events a0 = events a @ [WaitTrainDone t]"
    using assms(2) by (simp_all add: a0_def record_ev_def)
  have d: "eval_due (cfg a0) t = Inr False"
    using assms(1) k0(1) by (simp add: eval_due_disabled)
  from choose_action_frame[OF k0(3), of h obs t] obtain a2 act e where
    ch: "choose_action h a0 obs t = Inr (a2, act)" and k2: "agent_state_kept a0 a2"
    "eval_runs a2 = eval_runs a0" "events a2 = events a0 @ [e]"
    "e = ActionTrain t \<or> e = ActionSample t"
    by blast
  define a3 where "a3 = record_ev [SignalActChosen t] a2"
  have k3: "cfg a3 = cfg a" "start_step a3 = start_step a" "sess a3 = Some s"
    "eval_runs a3 = eval_runs a" "events a3 = events a @ [WaitTrainDone t, e, SignalActChosen t]"
    using k0 k2 by (simp_all add: a3_def record_ev_def agent_state_kept_def)
  have p3: "log_freq (cfg a3) \<noteq> 0" using k3(1) assms(3) by simp
  from act_and_store_frame[OF k3(3) p3, of h obs act t] obtain a' obs' ev4 where
    st: "act_and_store h a3 obs act t = Inr (a', obs')"
    and k4: "cfg a' = cfg a3" "start_step a' = start_step a3" "sess a' = Some (t_inc s)"
    "eval_runs a' = eval_runs a3" "events a' = events a3 @ ev4" "\<forall>u. EvalCall u \<notin> set ev4"
    by blast
  have "run_env_iter h (a, obs) t = Inr (a', obs')"
    using d ch st by (simp add: run_env_iter_def Let_def a0_def[symmetric] bind_err_def a3_def)
  moreover have "events a' = events a @ ([WaitTrainDone t, e, SignalActChosen t] @ ev4)"
    using k3(5) k4(5) by simp
  moreover have "\<forall>u. EvalCall u \<notin> set ([WaitTrainDone t, e, SignalActChosen t] @ ev4)"
    using k2(4) k4(6) by auto
  ultimately show ?thesis using k3 k4 by auto
qed

lemma run_env_loop_no_eval:
  assumes "eval_len (cfg a) \<le> 0" and "sess a = Some s" and "log_freq (cfg a) \<noteq> 0"
  shows "\<exists>a' obs' evs. for_each (run_env_iter h) ts (a, obs) = Inr (a', obs')
           \<and> eval_runs a' = eval_runs a
           \<and> events a' = events a @ evs \<and> (\<forall>u. EvalCall u \<notin> set evs)"
  using assms
proof (induction ts arbitrary: a obs s)
  case Nil
  then show ?case by simp
next
  case (Cons t ts)
  from run_env_iter_no_eval[OF Cons.prems, of h obs t] obtain a1 obs1 e1 where
    it: "run_env_iter h (a, obs) t = Inr (a1, obs1)"
    and k1: "cfg a1 = cfg a" "sess a1 = Some (t_inc s)" "eval_runs a1 = eval_runs a"
    "events a1 = events a @ e1" "\<forall>u. EvalCall u \<notin> set e1"
    by blast
  have p1: "eval_len (cfg a1) \<le> 0" "log_freq (cfg a1) \<noteq> 0"
    using k1(1) Cons.prems by simp_all
  from Cons.IH[OF p1(1) k1(2) p1(2), of obs1] obtain a' obs' e2 where
    r: "for_each (run_env_iter h) ts (a1, obs1) = Inr (a', obs')"
    "eval_runs a' = eval_runs a1" "events a' = events a1 @ e2" "\<forall>u. EvalCall u \<notin> set e2"
    by blast
  have "for_each (run_env_iter h) (t # ts) (a, obs) = Inr (a', obs')" using it r(1) by simp
  moreover have "events a' = events a @ (e1 @ e2)" using k1(4) r(3) by simp
  moreover have "\<forall>u. EvalCall u \<notin> set (e1 @ e2)" using k1(5) r(4) by simp
  ultimately show ?case using k1(3) r(2) by auto
qed

text \<open>
  C7.  If \<open>eval_len \<le> 0\<close>, the condition that guards the call of \<open>eval\<close> in \<open>_run_env\<close> is false
  at every step and raises nothing, whatever \<open>eval_freq\<close> is, zero included; and for a
  built agent with \<open>log_freq\<close> not zero, \<open>_run_env\<close> returns without having called \<open>eval\<close>, the
  run counter unchanged.
\<close>

theorem eval_never_invoked_when_disabled:
  assumes "eval_len (cfg a) \<le> 0"
  shows "(\<forall>t. eval_due (cfg a) t = Inr False)
       \<and> (start_step a = Some s0 \<and> sess a = Some s \<and> log_freq (cfg a) \<noteq> 0 \<longrightarrow>
            (\<exists>a' evs. run_env h a = Inr a' \<and> events a' = events a @ evs
               \<and> (\<forall>t. EvalCall t \<notin> set evs) \<and> eval_runs a' = eval_runs a))"
proof (intro conjI impI allI)
  fix t show "eval_due (cfg a) t = Inr False" using assms by (rule eval_due_disabled)
next
  assume b: "start_step a = Some s0 \<and> sess a = Some s \<and> log_freq (cfg a) \<noteq> 0"
  obtain a0 obs where r0: "reset h a = (a0, obs)" by (cases "reset h a") auto
  from reset_frame[OF r0] obtain ev0 where
    k0: "agent_state_kept a a0" "eval_runs a0 = eval_runs a" "events a0 = events a @ ev0"
    "set ev0 \<subseteq> {ModelReset, SubReset}"
    by blast
  have p0: "eval_len (cfg a0) \<le> 0" "sess a0 = Some s" "log_freq (cfg a0) \<noteq> 0"
    "start_step a0 = Some s0"
    using k0(1) b assms by (simp_all add: agent_state_kept_def)
  from run_env_loop_no_eval[OF p0(1,2,3), of h "py_range s0 (stop_step (cfg a0) + 1)" obs]
  obtain a' obs' evs where
    r: "for_each (run_env_iter h) (py_range s0 (stop_step (cfg a0) + 1)) (a0, obs) = Inr (a', obs')"
    "eval_runs a' = eval_runs a0" "events a' = events a0 @ evs" "\<forall>u. EvalCall u \<notin> set evs"
    by blast
  have "run_env h a = Inr a'"
    using r0 p0(4) r(1) by (simp add: run_env_def bind_err_def)
  moreover have "events a' = events a @ (ev0 @ evs)" using k0(3) r(3) by simp
  moreover have "\<forall>t. EvalCall t \<notin> set (ev0 @ evs)" using k0(4) r(4) by auto
  moreover have "eval_runs a' = eval_runs a" using k0(2) r(2) by simp
  ultimately show "\<exists>a' evs. run_env h a = Inr a' \<and> events a' = events a @ evs
               \<and> (\<forall>t. EvalCall t \<notin> set evs) \<and> eval_runs a' = eval_runs a"
    by blast
qed

theorem eval_never_invoked_when_disabled_witness:
  "eval_len (cfg no_eval_agent) \<le> 0 \<and> eval_freq (cfg no_eval_agent) = 0
   \<and> eval_due (cfg no_eval_agent) 5 = Inr False
   \<and> (\<exists>a'. run_env stub_hooks no_eval_agent = Inr a' \<and> (\<forall>t. EvalCall t \<notin> set (events a'))
           \<and> eval_runs a' = - 1)"
  using eval_never_invoked_when_disabled[of no_eval_agent 1 stub_session stub_hooks]
  by (auto simp add: no_eval_agent_def stub_agent_def stub_config_def)


section \<open>Properties of the learning executor\<close>

lemma trained_at_append: "trained_at (xs @ ys) = trained_at xs @ trained_at ys"
  by (simp add: trained_at_def)

lemma synced_at_append: "synced_at (xs @ ys) = synced_at xs @ synced_at ys"
  by (simp add: synced_at_def)

lemma save_frame:
  assumes "sess a = Some s"
  shows "\<exists>a' evs. save a = Inr a' \<and> cfg a' = cfg a \<and> sess a' = sess a
           \<and> events a' = events a @ evs \<and> trained_at evs = [] \<and> synced_at evs = []"
  using assms
  by (simp add: save_def record_ev_def Let_def trained_at_def synced_at_def)

lemma train_step_frame:
  assumes "sess a = Some s" and "update_target_freq (cfg a) \<noteq> 0"
  shows "\<exists>a' s' evs. train_step h a t = Inr a' \<and> cfg a' = cfg a \<and> sess a' = Some s'
           \<and> events a' = events a @ evs \<and> trained_at evs = [t]
           \<and> synced_at evs = (if t mod update_target_freq (cfg a) = 0 then [t] else [])"
  using assms
  by (simp add: train_step_def record_ev_def Let_def trained_at_def synced_at_def
                bind_err_def py_mod_is0_def py_mod_def)

lemma train_due_eq:
  "train_freq c \<noteq> 0 \<Longrightarrow> train_due c t = Inr (is_train_step c t)"
  by (simp add: train_due_def is_train_step_def py_mod_is0_def py_mod_def)

lemma save_due_total: "\<exists>sv. save_due c t = Inr sv"
  by (cases "0 < save_freq c") (auto simp add: save_due_def py_mod_is0_def py_mod_def)

lemma train_iter_frame:
  assumes "sess a = Some s" and "update_target_freq (cfg a) \<noteq> 0" and "train_freq (cfg a) \<noteq> 0"
  shows "\<exists>a' s' evs. train_iter h a t = Inr a' \<and> cfg a' = cfg a \<and> sess a' = Some s'
           \<and> events a' = events a @ evs
           \<and> trained_at evs = (if is_train_step (cfg a) t then [t] else [])
           \<and> synced_at evs = (if is_sync_step (cfg a) t then [t] else [])"
proof -
  obtain a1 s1 e1 where a1: "(if is_train_step (cfg a) t then train_step h a t
                        else Inr (record_ev [WaitActChosen t] a)) = Inr a1"
      and c1: "cfg a1 = cfg a" and s1: "sess a1 = Some s1"
      and ev1: "events a1 = events a @ e1"
      and t1: "trained_at e1 = (if is_train_step (cfg a) t then [t] else [])"
      and y1: "synced_at e1 = (if is_sync_step (cfg a) t then [t] else [])"
  proof (cases "is_train_step (cfg a) t")
    case True
    from train_step_frame[OF assms(1,2), of h t] True that show ?thesis
      by (auto simp: is_sync_step_def)
  next
    case False
    with assms(1) that[of "record_ev [WaitActChosen t] a" s "[WaitActChosen t]"] show ?thesis
      by (simp add: record_ev_def trained_at_def synced_at_def is_sync_step_def)
  qed
  obtain sv where sv: "save_due (cfg a1) t = Inr sv"
    using save_due_total by blast
  obtain a2 e2 where a2: "(if sv then save a1 else Inr a1) = Inr a2"
      and c2: "cfg a2 = cfg a1" and s2: "sess a2 = sess a1"
      and ev2: "events a2 = events a1 @ e2"
      and t2: "trained_at e2 = []" and y2: "synced_at e2 = []"
  proof (cases sv)
    case True
    with save_frame[OF s1] that show ?thesis by auto
  next
    case False
    with that[of a1 "[]"] show ?thesis by (simp add: trained_at_def synced_at_def)
  qed
  have "train_iter h a t = Inr (record_ev [SignalTrainDone t] a2)"
    using train_due_eq[OF assms(3), of t] a1 sv a2 by (simp add: train_iter_def bind_err_def)
  moreover have "events (record_ev [SignalTrainDone t] a2) = events a @ (e1 @ e2 @ [SignalTrainDone t])"
    using ev1 ev2 by (simp add: record_ev_def)
  moreover have "trained_at (e1 @ e2 @ [SignalTrainDone t]) = (if is_train_step (cfg a) t then [t] else [])"
    using t1 t2 by (simp add: trained_at_append) (simp add: trained_at_def)
  moreover have "synced_at (e1 @ e2 @ [SignalTrainDone t]) = (if is_sync_step (cfg a) t then [t] else [])"
    using y1 y2 by (simp add: synced_at_append) (simp add: synced_at_def)
  moreover have "cfg (record_ev [SignalTrainDone t] a2) = cfg a"
    "sess (record_ev [SignalTrainDone t] a2) = Some s1"
    using c1 c2 s1 s2 by (simp_all add: record_ev_def)
  ultimately show ?thesis by blast
qed

lemma train_loop_frame:
  assumes "sess a = Some s" and "update_target_freq (cfg a) \<noteq> 0" and "train_freq (cfg a) \<noteq> 0"
  shows "\<exists>a' evs. for_each (train_iter h) ts a = Inr a' \<and> events a' = events a @ evs
           \<and> trained_at evs = filter (is_train_step (cfg a)) ts
           \<and> synced_at evs = filter (is_sync_step (cfg a)) ts"
  using assms
proof (induction ts arbitrary: a s)
  case Nil
  then show ?case by (simp add: trained_at_def synced_at_def)
next
  case (Cons t ts)
  from train_iter_frame[OF Cons.prems, of h t] obtain a1 s1 e1 where
    it: "train_iter h a t = Inr a1" and c1: "cfg a1 = cfg a" and s1: "sess a1 = Some s1"
    and ev1: "events a1 = events a @ e1"
    and t1: "trained_at e1 = (if is_train_step (cfg a) t then [t] else [])"
    and y1: "synced_at e1 = (if is_sync_step (cfg a) t then [t] else [])"
    by blast
  from Cons.IH[OF s1] Cons.prems c1 obtain a' e2 where
    r: "for_each (train_iter h) ts a1 = Inr a'" "events a' = events a1 @ e2"
       "trained_at e2 = filter (is_train_step (cfg a)) ts"
       "synced_at e2 = filter (is_sync_step (cfg a)) ts"
    by auto
  have "for_each (train_iter h) (t # ts) a = Inr a'" using it r(1) by simp
  moreover have "events a' = events a @ (e1 @ e2)" using ev1 r(2) by simp
  moreover have "trained_at (e1 @ e2) = filter (is_train_step (cfg a)) (t # ts)"
    using t1 r(3) by (simp add: trained_at_append)
  moreover have "synced_at (e1 @ e2) = filter (is_sync_step (cfg a)) (t # ts)"
    using y1 r(4) by (simp add: synced_at_append)
  ultimately show ?case by blast
qed


text \<open>
  C1.  For an agent that has been built (\<open>start_step\<close> and the session are set) and whose
  \<open>train_freq\<close> and \<open>update_target_freq\<close> are not zero, \<open>_train_model\<close> returns, and the steps
  at which it ran the training operation are exactly the steps \<open>t\<close> of
  \<open>start_step..stop_step\<close> with \<open>t \<ge> start_train\<close> and \<open>t % train_freq == 0\<close>, in increasing
  order and each once.
\<close>

theorem train_model_trains_exactly:
  assumes "start_step a = Some s0" and "sess a = Some s"
    and "train_freq (cfg a) \<noteq> 0" and "update_target_freq (cfg a) \<noteq> 0"
  shows "\<exists>a' evs. train_model h a = Inr a' \<and> events a' = events a @ evs
           \<and> trained_at evs =
               filter (\<lambda>t. start_train (cfg a) \<le> t \<and> t mod train_freq (cfg a) = 0)
                      [s0..stop_step (cfg a)]
           \<and> (\<forall>t. s0 \<le> t \<and> t \<le> stop_step (cfg a) \<longrightarrow>
                  (t \<in> set (trained_at evs) \<longleftrightarrow>
                   start_train (cfg a) \<le> t \<and> t mod train_freq (cfg a) = 0))
           \<and> set (trained_at evs) \<subseteq> {s0..stop_step (cfg a)}"
proof -
  from train_loop_frame[OF assms(2,4,3), of h "[s0..stop_step (cfg a)]"]
  obtain a' evs where r: "for_each (train_iter h) [s0..stop_step (cfg a)] a = Inr a'"
      "events a' = events a @ evs"
      "trained_at evs = filter (is_train_step (cfg a)) [s0..stop_step (cfg a)]"
    by blast
  have "train_model h a = Inr a'"
    using assms(1) r(1) by (simp add: train_model_def py_range_def)
  moreover have f: "trained_at evs =
      filter (\<lambda>t. start_train (cfg a) \<le> t \<and> t mod train_freq (cfg a) = 0) [s0..stop_step (cfg a)]"
    using r(3) by (simp add: is_train_step_def[abs_def])
  moreover have "\<forall>t. s0 \<le> t \<and> t \<le> stop_step (cfg a) \<longrightarrow>
                  (t \<in> set (trained_at evs) \<longleftrightarrow>
                   start_train (cfg a) \<le> t \<and> t mod train_freq (cfg a) = 0)"
    unfolding f by simp
  moreover have "set (trained_at evs) \<subseteq> {s0..stop_step (cfg a)}"
    unfolding f by auto
  ultimately show ?thesis using r(2) by blast
qed

theorem train_model_trains_exactly_witness:
  "start_step stub_agent = Some 1 \<and> sess stub_agent = Some stub_session
   \<and> train_freq (cfg stub_agent) \<noteq> 0 \<and> update_target_freq (cfg stub_agent) \<noteq> 0
   \<and> (\<exists>a'. train_model stub_hooks stub_agent = Inr a'
            \<and> trained_at (events a') = [12, 16, 20])"
  using train_model_trains_exactly[of stub_agent 1 stub_session stub_hooks]
  by (auto simp add: stub_agent_def stub_config_def upto.simps)

text \<open>
  C5.  Under the same conditions, the target update runs at a step exactly if the
  training operation ran at that step and \<open>t % update_target_freq == 0\<close>; it never runs at
  a step without a training step.
\<close>

theorem target_sync_iff_trained_and_due:
  assumes "start_step a = Some s0" and "sess a = Some s"
    and "train_freq (cfg a) \<noteq> 0" and "update_target_freq (cfg a) \<noteq> 0"
  shows "\<exists>a' evs. train_model h a = Inr a' \<and> events a' = events a @ evs
           \<and> (\<forall>t. t \<in> set (synced_at evs) \<longleftrightarrow>
                  t \<in> set (trained_at evs) \<and> t mod update_target_freq (cfg a) = 0)
           \<and> (\<forall>t. t \<in> set (synced_at evs) \<longleftrightarrow>
                  s0 \<le> t \<and> t \<le> stop_step (cfg a) \<and> start_train (cfg a) \<le> t
                  \<and> t mod train_freq (cfg a) = 0 \<and> t mod update_target_freq (cfg a) = 0)
           \<and> (\<forall>t. t \<notin> set (trained_at evs) \<longrightarrow> t \<notin> set (synced_at evs))"
proof -
  from train_loop_frame[OF assms(2,4,3), of h "[s0..stop_step (cfg a)]"]
  obtain a' evs where r: "for_each (train_iter h) [s0..stop_step (cfg a)] a = Inr a'"
      "events a' = events a @ evs"
      "trained_at evs = filter (is_train_step (cfg a)) [s0..stop_step (cfg a)]"
      "synced_at evs = filter (is_sync_step (cfg a)) [s0..stop_step (cfg a)]"
    by blast
  have "train_model h a = Inr a'"
    using assms(1) r(1) by (simp add: train_model_def py_range_def)
  moreover have "\<forall>t. t \<in> set (synced_at evs) \<longleftrightarrow>
                  t \<in> set (trained_at evs) \<and> t mod update_target_freq (cfg a) = 0"
    unfolding r(3,4) by (auto simp: is_sync_step_def)
  moreover have "\<forall>t. t \<in> set (synced_at evs) \<longleftrightarrow>
                  s0 \<le> t \<and> t \<le> stop_step (cfg a) \<and> start_train (cfg a) \<le> t
                  \<and> t mod train_freq (cfg a) = 0 \<and> t mod update_target_freq (cfg a) = 0"
    unfolding r(4) by (auto simp: is_sync_step_def is_train_step_def)
  moreover have "\<forall>t. t \<notin> set (trained_at evs) \<longrightarrow> t \<notin> set (synced_at evs)"
    unfolding r(3,4) by (auto simp: is_sync_step_def)
  ultimately show ?thesis using r(2) by blast
qed

theorem target_sync_iff_trained_and_due_witness:
  "start_step stub_agent = Some 1 \<and> sess stub_agent = Some stub_session
   \<and> train_freq (cfg stub_agent) \<noteq> 0 \<and> update_target_freq (cfg stub_agent) \<noteq> 0
   \<and> (\<exists>a'. train_model stub_hooks stub_agent = Inr a'
            \<and> (\<forall>t. t \<in> set (synced_at (events a')) \<longleftrightarrow> t = 20))"
proof -
  from target_sync_iff_trained_and_due[of stub_agent 1 stub_session stub_hooks]
  obtain a' where r: "train_model stub_hooks stub_agent = Inr a'"
    "\<forall>t. t \<in> set (synced_at (events a')) \<longleftrightarrow>
         1 \<le> t \<and> t \<le> 20 \<and> 10 \<le> t \<and> t mod 4 = 0 \<and> t mod 10 = 0"
    by (auto simp add: stub_agent_def stub_config_def)
  have "\<forall>t. t \<in> set (synced_at (events a')) \<longleftrightarrow> t = 20"
  proof
    fix t :: int
    have "(1 \<le> t \<and> t \<le> 20 \<and> 10 \<le> t \<and> t mod 4 = 0 \<and> t mod 10 = 0) \<longleftrightarrow> t = 20"
      by presburger
    with r(2) show "t \<in> set (synced_at (events a')) \<longleftrightarrow> t = 20" by simp
  qed
  with r(1) show ?thesis by (simp add: stub_agent_def stub_config_def)
qed

section \<open>Properties of \<open>save\<close>\<close>

text \<open>
  C9.  \<open>save\<close> returns the agent unchanged, with no call recorded, when \<open>learn_started\<close> is
  not true.  When it is true (and the session exists), one call of \<open>save\<close> makes the monitor
  write its statistics and the saver write a checkpoint that holds the model parameters
  and the timestep counter of the session as they are at the call; nothing else changes.
\<close>

theorem save_noop_or_persists:
  "(\<not> truthy (learn_started a) \<longrightarrow> save a = Inr a)
   \<and> (truthy (learn_started a) \<and> sess a = Some s \<longrightarrow>
        save a = Inr (a\<lparr>mon_saved := Some (env a),
                          model_dir := take 2 (\<lparr>ck_graph = graph a, ck_vars = s\<rparr> # model_dir a),
                          events := events a @ [MonitorSave, SaverSave (t_tf s)]\<rparr>)
        \<and> (\<exists>a' ck rest. save a = Inr a' \<and> model_dir a' = ck # rest
               \<and> params (ck_vars ck) = params s \<and> t_tf (ck_vars ck) = t_tf s
               \<and> mon_saved a' = Some (env a)))"
  by (simp add: save_def record_ev_def Let_def)

theorem save_noop_or_persists_witness:
  "\<not> truthy (learn_started stub_agent) \<and> save stub_agent = Inr stub_agent
   \<and> truthy (learn_started (stub_agent\<lparr>learn_started := Some True\<rparr>))
   \<and> sess (stub_agent\<lparr>learn_started := Some True\<rparr>) = Some stub_session
   \<and> (\<exists>a'. save (stub_agent\<lparr>learn_started := Some True\<rparr>) = Inr a'
          \<and> model_dir a' = [\<lparr>ck_graph = [], ck_vars = stub_session\<rparr>]
          \<and> mon_saved a' = Some 0
          \<and> events a' = [MonitorSave, SaverSave 1])"
  using save_noop_or_persists[of stub_agent stub_session]
        save_noop_or_persists[of "stub_agent\<lparr>learn_started := Some True\<rparr>" stub_session]
  by (simp add: stub_agent_def stub_session_def)

end
